theory Spec2Isabelle
  imports Complex_Main "HOL-Library.Word"
begin

section \<open>Python strings\<close>

text \<open>
  A Python \<open>str\<close> is a sequence of Unicode code points; \<open>len\<close>, \<open>==\<close>, slicing and
  \<open>startswith\<close> all work on code points. The literals of \<open>translation.py\<close> are
  written here as lists of code-point numbers, so comparing two strings is comparing
  two lists and is case-sensitive.
\<close>

type_synonym pystr = "nat list"

text \<open>
  \<open>str.isspace\<close> on one code point: the code points Python treats as whitespace
  (U+0009..U+000D, U+001C..U+0020, U+0085, U+00A0, U+1680, U+2000..U+200A, U+2028,
  U+2029, U+202F, U+205F, U+3000).
\<close>

definition isspace :: "nat \<Rightarrow> bool" where
  "isspace c \<longleftrightarrow>
     (9 \<le> c \<and> c \<le> 13) \<or> (28 \<le> c \<and> c \<le> 32) \<or> c = 133 \<or> c = 160 \<or> c = 5760 \<or>
     (8192 \<le> c \<and> c \<le> 8202) \<or> c = 8232 \<or> c = 8233 \<or> c = 8239 \<or> c = 8287 \<or>
     c = 12288"

text \<open>\<open>s.strip()\<close> with no argument: leading and trailing whitespace removed.\<close>

definition strip :: "pystr \<Rightarrow> pystr" where
  "strip s = rev (dropWhile isspace (rev (dropWhile isspace s)))"

text \<open>\<open>s.startswith(p)\<close>.\<close>

definition startswith :: "pystr \<Rightarrow> pystr \<Rightarrow> bool" where
  "startswith s p \<longleftrightarrow> take (length p) s = p"

text \<open>Truthiness of a string: \<open>if s:\<close> holds for a non-empty string.\<close>

definition truthy :: "pystr \<Rightarrow> bool" where
  "truthy s \<longleftrightarrow> s \<noteq> []"

section \<open>TranslationWorker._clean_translation\<close>

text \<open>
  The list \<open>remove_prefixes\<close> of the source, in the source's order. Entry 4 is
  \<open>Translation:\<close>, entry 5 the ASCII colon, entry 6 the full-width colon U+FF1A.
\<close>

definition remove_prefixes :: "pystr list" where
  "remove_prefixes =
    [ [20197, 19979, 33521, 25991, 32763, 35793, 25104, 20013, 25991, 65306],
      [20197, 19979, 20013, 25991, 32763, 35793, 25104, 33521, 25991, 65306],
      [32763, 35793, 65306],
      [84, 114, 97, 110, 115, 108, 97, 116, 105, 111, 110, 58],
      [58],
      [65306],
      [84, 114, 97, 110, 115, 108, 97, 116, 101, 32, 116, 104, 105, 115, 32, 69, 110,
       103, 108, 105, 115, 104, 32, 116, 111, 32, 67, 104, 105, 110, 101, 115, 101, 58],
      [84, 114, 97, 110, 115, 108, 97, 116, 101, 32, 116, 104, 105, 115, 32, 67, 104,
       105, 110, 101, 115, 101, 32, 116, 111, 32, 69, 110, 103, 108, 105, 115, 104, 58],
      [84, 114, 97, 110, 115, 108, 97, 116, 101, 32, 116, 111, 32, 67, 104, 105, 110,
       101, 115, 101, 58],
      [84, 114, 97, 110, 115, 108, 97, 116, 101, 32, 116, 111, 32, 69, 110, 103, 108,
       105, 115, 104, 58],
      [20013, 25991, 32763, 35793, 65306],
      [33521, 25991, 32763, 35793, 65306],
      [72, 101, 114, 101, 32, 105, 115, 32, 116, 104, 101, 32, 116, 114, 97, 110, 115,
       108, 97, 116, 105, 111, 110, 58],
      [84, 104, 101, 32, 116, 114, 97, 110, 115, 108, 97, 116, 105, 111, 110, 32, 105,
       115, 58],
      [22909, 30340, 65292],
      [79, 107, 97, 121, 44],
      [21999, 65292],
      [67, 101, 114, 116, 97, 105, 110, 108, 121, 44] ]"

text \<open>
  The loop \<open>for prefix in remove_prefixes\<close>: every entry is tested against the current
  value of \<open>translation\<close>, and the loop has no \<open>break\<close>, so it goes on to the next
  entry after a match with the shortened string.
\<close>

fun clean_loop :: "pystr list \<Rightarrow> pystr \<Rightarrow> pystr" where
  "clean_loop [] translation = translation"
| "clean_loop (prefix # rest) translation =
     clean_loop rest
       (if startswith translation prefix
        then strip (drop (length prefix) translation)
        else translation)"

definition clean_translation :: "pystr \<Rightarrow> pystr" where
  "clean_translation translation = strip (clean_loop remove_prefixes translation)"

text \<open>
  The cleaning function as the specification words it, for comparison with the one
  above: the first entry of the list that matches is removed, no other entry is, and
  the result is trimmed.
\<close>

definition spec_clean_first_match :: "pystr list \<Rightarrow> pystr \<Rightarrow> pystr" where
  "spec_clean_first_match prefixes s =
     (case find (startswith s) prefixes of
        None \<Rightarrow> strip s
      | Some p \<Rightarrow> strip (drop (length p) s))"

section \<open>TranslationWorker.add_translation_task\<close>

text \<open>
  The worker's \<open>request_queue\<close> is an unbounded FIFO \<open>queue.Queue\<close> of
  \<open>(text, source_language)\<close> pairs; \<open>put\<close> appends at the back and never blocks.
\<close>

record translation_worker =
  request_queue :: "(pystr \<times> pystr) list"

definition add_translation_task :: "translation_worker \<Rightarrow> pystr \<Rightarrow> pystr \<Rightarrow> translation_worker" where
  "add_translation_task worker text source_language =
     (if truthy text \<and> truthy (strip text)
      then worker\<lparr>request_queue := request_queue worker @ [(text, source_language)]\<rparr>
      else worker)"

section \<open>DraggableSubtitleWindow: the subtitle slots\<close>

text \<open>
  A subtitle is a dict with the three keys \<open>original\<close>, \<open>translation\<close> and \<open>language\<close>.
  \<open>previous_subtitle\<close> is always assigned a copy of \<open>current_subtitle\<close>, and
  \<open>current_subtitle\<close> a fresh dict, so the two slots never share a dict and an update of
  one key of \<open>current_subtitle\<close> leaves \<open>previous_subtitle\<close> alone. The four subtitle
  labels and the language label are the part of the display the handlers write.
  \<open>translation_worker\<close> is \<open>None\<close> until \<open>_start_translation_worker\<close> has run.
\<close>

record subtitle =
  original :: pystr
  translation :: pystr
  language :: pystr

record window =
  previous_subtitle :: subtitle
  current_subtitle :: subtitle
  worker :: "translation_worker option"
  previous_original_label :: pystr
  previous_translation_label :: pystr
  current_original_label :: pystr
  current_translation_label :: pystr
  language_label :: pystr

text \<open>
  The marker shown while a translation is pending (U+1F504, a space, three CJK
  characters and three dots) and the marker shown after a failure (U+274C, a space and
  four CJK characters).
\<close>

definition pending_marker :: pystr where
  "pending_marker = [128260, 32, 32763, 35793, 20013, 46, 46, 46]"

definition failure_marker :: pystr where
  "failure_marker = [10060, 32, 32763, 35793, 22833, 36133]"

text \<open>
  \<open>DraggableSubtitleWindow._get_language_name\<close>: \<open>language_names.get(lang_code, lang_code)\<close>
  over the keys en, zh, ja, ko, fr, de, es, ru and unknown.
\<close>

definition get_language_name :: "pystr \<Rightarrow> pystr" where
  "get_language_name lang_code =
     (if lang_code = [101, 110] then [69, 110, 103, 108, 105, 115, 104]
      else if lang_code = [122, 104] then [20013, 25991]
      else if lang_code = [106, 97] then [74, 97, 112, 97, 110, 101, 115, 101]
      else if lang_code = [107, 111] then [75, 111, 114, 101, 97, 110]
      else if lang_code = [102, 114] then [70, 114, 101, 110, 99, 104]
      else if lang_code = [100, 101] then [71, 101, 114, 109, 97, 110]
      else if lang_code = [101, 115] then [83, 112, 97, 110, 105, 115, 104]
      else if lang_code = [114, 117] then [82, 117, 115, 115, 105, 97, 110]
      else if lang_code = [117, 110, 107, 110, 111, 119, 110] then [26410, 30693]
      else lang_code)"

definition update_display :: "window \<Rightarrow> window" where
  "update_display w =
     w\<lparr>previous_original_label := original (previous_subtitle w),
       previous_translation_label := translation (previous_subtitle w),
       current_original_label := original (current_subtitle w),
       current_translation_label := translation (current_subtitle w)\<rparr>"

text \<open>
  \<open>on_speech_recognized\<close>: the language label is set, the old current entry is demoted
  when its original text is non-empty, the current slot is replaced, the display is
  refreshed, and the task is handed to the worker when there is one.
\<close>

definition on_speech_recognized :: "window \<Rightarrow> pystr \<Rightarrow> pystr \<Rightarrow> window" where
  "on_speech_recognized w text detected_language =
     (let w1 = w\<lparr>language_label :=
                   [26816, 27979, 35821, 35328, 58, 32] @ get_language_name detected_language\<rparr>;
          w2 = (if truthy (original (current_subtitle w1))
                then w1\<lparr>previous_subtitle := current_subtitle w1\<rparr>
                else w1);
          w3 = w2\<lparr>current_subtitle :=
                   \<lparr>original = text, translation = pending_marker,
                    language = detected_language\<rparr>\<rparr>;
          w4 = update_display w3
      in case worker w4 of
           None \<Rightarrow> w4
         | Some tw \<Rightarrow> w4\<lparr>worker := Some (add_translation_task tw text detected_language)\<rparr>)"

definition on_translation_finished :: "window \<Rightarrow> pystr \<Rightarrow> pystr \<Rightarrow> pystr \<Rightarrow> window" where
  "on_translation_finished w original_text translated_text source_language =
     (if original (current_subtitle w) = original_text
      then update_display
             (w\<lparr>current_subtitle := (current_subtitle w)\<lparr>translation := translated_text\<rparr>\<rparr>)
      else w)"

definition on_translation_failed :: "window \<Rightarrow> pystr \<Rightarrow> pystr \<Rightarrow> window" where
  "on_translation_failed w original_text error_msg =
     (if original (current_subtitle w) = original_text
      then update_display
             (w\<lparr>current_subtitle := (current_subtitle w)\<lparr>translation := failure_marker\<rparr>\<rparr>)
      else w)"

section \<open>WhisperSpeechRecognizer._process_speech\<close>

text \<open>
  One call of \<open>_process_speech\<close> touches the file system (the temporary WAV file), calls
  the Whisper model and emits signals. What the outside world does during the call is
  given as a value: the path \<open>NamedTemporaryFile\<close> picks, whether creating the file,
  writing the WAV data and \<open>os.unlink\<close> succeed, and whether \<open>model.transcribe\<close> raises
  or returns a result dict (its \<open>text\<close>, and its \<open>language\<close> entry when present).
\<close>

type_synonym path = pystr

record transcription =
  result_text :: pystr
  result_language :: "pystr option"

datatype transcribe_outcome = TranscribeRaises | TranscribeReturns transcription

record speech_env =
  temp_path :: path
  tempfile_ok :: bool
  wave_write_ok :: bool
  transcribe :: transcribe_outcome
  unlink_ok :: bool

text \<open>
  The status strings of \<open>status_updated\<close>; the message of a finished recognition
  carries the language code whose display name the source looks up.
\<close>

datatype status = Recognizing | RecognitionDone pystr | RecognitionFailed | RecognitionError

record speech_effects =
  files :: "path set"
  text_recognized :: "(pystr \<times> pystr) list"
  status_updated :: "status list"

text \<open>
  The whole body stands in one \<open>try\<close> whose handler only reports
  \<open>RecognitionError\<close>; \<open>os.unlink\<close> is the statement after the \<open>transcribe\<close> call, in
  a \<open>try\<close> of its own that swallows its failure, and is not in a \<open>finally\<close>.
  \<open>files\<close> is the set of files on disk before the call.
\<close>

definition process_speech :: "path set \<Rightarrow> speech_env \<Rightarrow> speech_effects" where
  "process_speech fs env =
     (if \<not> tempfile_ok env then
        \<lparr>files = fs, text_recognized = [], status_updated = [RecognitionError]\<rparr>
      else if \<not> wave_write_ok env then
        \<lparr>files = insert (temp_path env) fs, text_recognized = [],
         status_updated = [RecognitionError]\<rparr>
      else
        (case transcribe env of
           TranscribeRaises \<Rightarrow>
             \<lparr>files = insert (temp_path env) fs, text_recognized = [],
              status_updated = [Recognizing, RecognitionError]\<rparr>
         | TranscribeReturns result \<Rightarrow>
             (let text = strip (result_text result);
                  detected_language =
                    (case result_language result of
                       None \<Rightarrow> [117, 110, 107, 110, 111, 119, 110]
                     | Some l \<Rightarrow> l);
                  fs' = (if unlink_ok env then fs - {temp_path env}
                         else insert (temp_path env) fs)
              in if truthy text \<and> length text > 1 then
                   \<lparr>files = fs', text_recognized = [(text, detected_language)],
                    status_updated = [Recognizing, RecognitionDone detected_language]\<rparr>
                 else
                   \<lparr>files = fs', text_recognized = [],
                    status_updated = [Recognizing, RecognitionFailed]\<rparr>)))"

text \<open>
  The signal \<open>text_recognized\<close> is connected to \<open>on_speech_recognized\<close>: each emitted
  pair is one call of the handler, in the order of emission.
\<close>

definition deliver_recognized :: "window \<Rightarrow> (pystr \<times> pystr) list \<Rightarrow> window" where
  "deliver_recognized w emitted =
     foldl (\<lambda>w' (text, lang). on_speech_recognized w' text lang) w emitted"

section \<open>WhisperSpeechRecognizer._process_audio_stream\<close>

text \<open>
  A frame is the \<open>bytes\<close> object the audio callback puts on \<open>audio_queue\<close>.
  \<open>np.frombuffer(data, dtype=np.int16)\<close> reads it as little-endian 16-bit samples
  and raises \<open>ValueError\<close> when the number of bytes is odd.
\<close>

type_synonym frame = "8 word list"

fun frombuffer :: "8 word list \<Rightarrow> 16 word list option" where
  "frombuffer [] = Some []"
| "frombuffer [b] = None"
| "frombuffer (lo # hi # rest) =
     (case frombuffer rest of
        None \<Rightarrow> None
      | Some samples \<Rightarrow> Some (or (push_bit 8 (ucast hi)) (ucast lo) # samples))"

text \<open>
  \<open>np.abs\<close> on an \<open>int16\<close> array stays in \<open>int16\<close>: the negation wraps, so the sample
  \<open>-32768\<close> keeps its value.
\<close>

definition np_abs :: "16 word \<Rightarrow> 16 word" where
  "np_abs x = (if sint x < 0 then - x else x)"

text \<open>
  \<open>np.mean\<close> accumulates in double precision: the sum of at most a frame's worth of
  16-bit values is exact, and the quotient is compared with thresholds it cannot be
  within a rounding error of, so the mean is taken as the exact quotient. The
  \<open>isnan\<close>/\<open>isinf\<close> branch cannot be reached from a finite integer array.
\<close>

definition volume_of :: "16 word list \<Rightarrow> rat" where
  "volume_of audio_data =
     (if length audio_data > 0
      then of_int (sum_list (map (\<lambda>x. sint (np_abs x)) audio_data)) / of_nat (length audio_data)
      else 0)"

text \<open>
  The volume the loop computes for a frame, or \<open>None\<close> when the iteration ends before
  it: \<open>if not data: continue\<close> for an empty frame, and the \<open>ValueError\<close> of
  \<open>np.frombuffer\<close>, caught by \<open>except Exception: continue\<close>.
\<close>

definition frame_volume :: "frame \<Rightarrow> rat option" where
  "frame_volume data =
     (if data = [] then None
      else case frombuffer data of None \<Rightarrow> None | Some audio_data \<Rightarrow> Some (volume_of audio_data))"

text \<open>The attributes set in \<open>__init__\<close> and never assigned again.\<close>

definition chunk_size :: nat where
  "chunk_size = 1024"

definition sample_rate :: nat where
  "sample_rate = 16000"

definition silence_threshold :: rat where
  "silence_threshold = 100"

definition silence_duration_threshold :: rat where
  "silence_duration_threshold = 12 / 10"

definition min_speech_duration :: rat where
  "min_speech_duration = 5 / 10"

definition max_speech_duration :: rat where
  "max_speech_duration = 8"

record recognizer =
  audio_buffer :: "frame list"
  silence_frames :: nat
  is_speaking :: bool
  debug_counter :: nat

definition initial_recognizer :: recognizer where
  "initial_recognizer =
     \<lparr>audio_buffer = [], silence_frames = 0, is_speaking = False, debug_counter = 0\<rparr>"

text \<open>
  \<open>n * self.chunk_size / self.sample_rate\<close>, the duration in seconds of \<open>n\<close> frames.
  Python divides two integers here and rounds the quotient to a double; for the
  constants above no quotient but the exact \<open>8.0\<close> of 125 frames lies within a rounding
  error of a threshold it is compared with, so the comparisons are those of the exact
  quotients.
\<close>

definition duration_of :: "nat \<Rightarrow> rat" where
  "duration_of n = of_nat (n * chunk_size) / of_nat sample_rate"

definition audio_duration :: "recognizer \<Rightarrow> rat" where
  "audio_duration r =
     (if audio_buffer r \<noteq> [] then duration_of (length (audio_buffer r)) else 0)"

datatype closure = SilenceClosure | MaxLengthClosure | ShortUtteranceClosure | QueueIdleClosure

text \<open>
  The \<open>if\<close>/\<open>elif\<close> chain that sets \<open>should_process\<close> and \<open>reason\<close>; \<open>None\<close> is
  \<open>should_process = False\<close>. The product \<open>self.silence_threshold * 0.7\<close> is the double
  \<open>70.0\<close>.
\<close>

definition closure_rule :: "recognizer \<Rightarrow> rat \<Rightarrow> closure option" where
  "closure_rule r volume =
     (if is_speaking r then
        (let silence_duration = duration_of (silence_frames r) in
         if silence_duration \<ge> silence_duration_threshold \<and>
            audio_duration r \<ge> min_speech_duration then Some SilenceClosure
         else if audio_duration r \<ge> max_speech_duration then Some MaxLengthClosure
         else if audio_duration r \<ge> 1 \<and> silence_duration \<ge> 8 / 10 \<and>
                 volume < silence_threshold * (7 / 10) then Some ShortUtteranceClosure
         else None)
      else None)"

text \<open>\<open>keep_frames = int(0.3 * self.sample_rate / self.chunk_size)\<close>.\<close>

definition keep_frames :: nat where
  "keep_frames = nat \<lfloor>(3 / 10 :: rat) * of_nat sample_rate / of_nat chunk_size\<rfloor>"

text \<open>The slice \<open>xs[-k:]\<close> for \<open>k \<ge> 0\<close>; \<open>xs[-0:]\<close> is the whole list.\<close>

definition last_frames :: "nat \<Rightarrow> 'a list \<Rightarrow> 'a list" where
  "last_frames k xs = (if k = 0 then xs else drop (length xs - k) xs)"

text \<open>The state after a closure on the frame path (source lines 189 to 197).\<close>

definition reset_state :: "recognizer \<Rightarrow> recognizer" where
  "reset_state r =
     r\<lparr>audio_buffer :=
         (if length (audio_buffer r) > keep_frames
          then last_frames keep_frames (audio_buffer r)
          else []),
       is_speaking := False,
       silence_frames := 0\<rparr>"

text \<open>The voice activity update of one frame (source lines 135 to 150).\<close>

definition detect_activity :: "recognizer \<Rightarrow> frame \<Rightarrow> rat \<Rightarrow> recognizer" where
  "detect_activity r data volume =
     (if volume > silence_threshold then
        (if \<not> is_speaking r
         then r\<lparr>silence_frames := 0, is_speaking := True, audio_buffer := [data]\<rparr>
         else r\<lparr>silence_frames := 0, audio_buffer := audio_buffer r @ [data]\<rparr>)
      else
        (if is_speaking r
         then r\<lparr>silence_frames := silence_frames r + 1,
                audio_buffer := audio_buffer r @ [data]\<rparr>
         else r\<lparr>silence_frames := silence_frames r + 1\<rparr>))"

text \<open>
  An utterance is one call \<open>self._process_speech(audio_data)\<close> with
  \<open>audio_data = b''.join(self.audio_buffer)\<close>; it is recorded with the rule that closed
  it. \<open>_process_speech\<close> catches every exception itself, so the statements after the
  call always run.
\<close>

type_synonym utterance = "closure \<times> 8 word list"

text \<open>
  One iteration of the loop in which \<open>audio_queue.get\<close> returned a frame. The signal
  \<open>volume_updated\<close> and the debug print change no attribute of the recognizer and are
  left out.
\<close>

definition process_frame :: "recognizer \<Rightarrow> frame \<Rightarrow> recognizer \<times> utterance list" where
  "process_frame r data =
     (case frame_volume data of
        None \<Rightarrow> (r, [])
      | Some volume \<Rightarrow>
          (let r1 = r\<lparr>debug_counter := debug_counter r + 1\<rparr>;
               r2 = detect_activity r1 data volume
           in case closure_rule r2 volume of
                None \<Rightarrow> (r2, [])
              | Some rule \<Rightarrow>
                  if audio_buffer r2 \<noteq> []
                  then (reset_state r2, [(rule, concat (audio_buffer r2))])
                  else (r2, [])))"

text \<open>One iteration in which \<open>audio_queue.get\<close> timed out (\<open>except queue.Empty\<close>).\<close>

definition queue_empty :: "recognizer \<Rightarrow> recognizer \<times> utterance list" where
  "queue_empty r =
     (if is_speaking r \<and> audio_buffer r \<noteq> [] then
        (if duration_of (length (audio_buffer r)) \<ge> min_speech_duration
         then (r\<lparr>audio_buffer := [], is_speaking := False\<rparr>,
               [(QueueIdleClosure, concat (audio_buffer r))])
         else (r, []))
      else (r, []))"

datatype event = Frame frame | QueueEmpty

fun handle_event :: "recognizer \<Rightarrow> event \<Rightarrow> recognizer \<times> utterance list" where
  "handle_event r (Frame data) = process_frame r data"
| "handle_event r QueueEmpty = queue_empty r"

text \<open>
  The loop \<open>while self._is_running\<close> over the outcomes of \<open>audio_queue.get\<close> that
  arrive before the recognizer is stopped: the final state and the utterances handed
  to \<open>_process_speech\<close>, in order.
\<close>

fun process_audio_stream :: "recognizer \<Rightarrow> event list \<Rightarrow> recognizer \<times> utterance list" where
  "process_audio_stream r [] = (r, [])"
| "process_audio_stream r (e # es) =
     (case handle_event r e of
        (r', out) \<Rightarrow>
          (case process_audio_stream r' es of
             (r'', outs) \<Rightarrow> (r'', out @ outs)))"

text \<open>
  The three conditions of the \<open>if\<close>/\<open>elif\<close> chain, read off a speaking recognizer
  with \<open>n\<close> buffered frames and \<open>j\<close> silent frames: silence closure, maximum length
  closure, short utterance closure.
\<close>

definition closure_due :: "nat \<Rightarrow> nat \<Rightarrow> rat \<Rightarrow> bool" where
  "closure_due n j volume \<longleftrightarrow>
     duration_of j \<ge> silence_duration_threshold \<and> duration_of n \<ge> min_speech_duration \<or>
     duration_of n \<ge> max_speech_duration \<or>
     duration_of n \<ge> 1 \<and> duration_of j \<ge> 8 / 10 \<and> volume < silence_threshold * (7 / 10)"

section \<open>Sample inputs\<close>

text \<open>
  A window showing the recognized text \<open>hi\<close> (language \<open>en\<close>) whose translation is
  pending, with a running worker and an empty task queue.
\<close>

definition sample_window :: window where
  "sample_window =
     \<lparr>previous_subtitle = \<lparr>original = [], translation = [], language = []\<rparr>,
      current_subtitle = \<lparr>original = [104, 105], translation = pending_marker, language = [101, 110]\<rparr>,
      worker = Some \<lparr>request_queue = []\<rparr>,
      previous_original_label = [], previous_translation_label = [],
      current_original_label = [104, 105], current_translation_label = pending_marker,
      language_label = []\<rparr>"

text \<open>
  Two environments for one call of \<open>_process_speech\<close>, both with the temporary file
  \<open>/tmp/a.wav\<close>: one in which \<open>model.transcribe\<close> raises, one in which it returns
  the given text with the language \<open>en\<close>.
\<close>

definition raising_env :: speech_env where
  "raising_env =
     \<lparr>temp_path = [47, 116, 109, 112, 47, 97, 46, 119, 97, 118], tempfile_ok = True,
      wave_write_ok = True, transcribe = TranscribeRaises, unlink_ok = True\<rparr>"

definition returning_env :: "pystr \<Rightarrow> speech_env" where
  "returning_env raw =
     \<lparr>temp_path = [47, 116, 109, 112, 47, 97, 46, 119, 97, 118], tempfile_ok = True,
      wave_write_ok = True,
      transcribe = TranscribeReturns \<lparr>result_text = raw, result_language = Some [101, 110]\<rparr>,
      unlink_ok = True\<rparr>"

text \<open>
  Frames as the device delivers them, \<open>chunk_size\<close> samples of 16 bits, here all with
  the same value: two loud ones (volumes 200 and 201), a silent one (volume 0) and a
  murmur (volume 80, below the threshold 100 but not below 70).
\<close>

definition constant_frame :: "8 word \<Rightarrow> 8 word \<Rightarrow> frame" where
  "constant_frame lo hi = concat (replicate chunk_size [lo, hi])"

definition loud_frame :: frame where
  "loud_frame = constant_frame 200 0"

definition second_loud_frame :: frame where
  "second_loud_frame = constant_frame 201 0"

definition quiet_frame :: frame where
  "quiet_frame = constant_frame 0 0"

definition murmur_frame :: frame where
  "murmur_frame = constant_frame 80 0"

section \<open>Properties of strip\<close>

lemma strip_no_leading: "dropWhile isspace (strip s) = strip s"
proof -
  define u where "u = dropWhile isspace s"
  define t where "t = rev (dropWhile isspace (rev u))"
  have u: "u = [] \<or> \<not> isspace (hd u)"
    unfolding u_def by (metis hd_dropWhile)
  have "rev (takeWhile isspace (rev u) @ dropWhile isspace (rev u)) = rev (rev u)"
    by (simp only: takeWhile_dropWhile_id)
  then have split: "u = t @ rev (takeWhile isspace (rev u))"
    unfolding t_def by (simp only: rev_append rev_rev_ident)
  have "t = [] \<or> \<not> isspace (hd t)"
  proof (cases "t = []")
    case True then show ?thesis by simp
  next
    case False
    with split have "hd u = hd t" "u \<noteq> []" by (metis hd_append2, auto)
    with u show ?thesis by simp
  qed
  then have "dropWhile isspace t = t" by (simp add: dropWhile_eq_self_iff)
  then show ?thesis unfolding strip_def t_def u_def .
qed

lemma strip_no_trailing: "dropWhile isspace (rev (strip s)) = rev (strip s)"
  by (simp add: strip_def)

lemma strip_strip: "strip (strip s) = strip s"
proof -
  have "strip (strip s) = rev (dropWhile isspace (rev (dropWhile isspace (strip s))))"
    by (simp add: strip_def)
  also have "\<dots> = rev (dropWhile isspace (rev (strip s)))"
    by (simp only: strip_no_leading)
  also have "\<dots> = rev (rev (strip s))"
    by (simp only: strip_no_trailing)
  finally show ?thesis by simp
qed

lemma strip_empty_iff: "strip s = [] \<longleftrightarrow> (\<forall>c\<in>set s. isspace c)"
proof
  assume "strip s = []"
  then have all: "\<forall>x\<in>set (dropWhile isspace s). isspace x"
    by (simp add: strip_def)
  have "dropWhile isspace s = []"
  proof (rule ccontr)
    assume ne: "dropWhile isspace s \<noteq> []"
    then have "\<not> isspace (hd (dropWhile isspace s))" by (rule hd_dropWhile)
    moreover from ne have "hd (dropWhile isspace s) \<in> set (dropWhile isspace s)" by simp
    ultimately show False using all by blast
  qed
  then show "\<forall>c\<in>set s. isspace c" by simp
next
  assume "\<forall>c\<in>set s. isspace c"
  then have "dropWhile isspace s = []" by simp
  then show "strip s = []" unfolding strip_def by (simp only: rev.simps dropWhile.simps)
qed

lemma strip_truthy_iff: "truthy s \<and> truthy (strip s) \<longleftrightarrow> (\<exists>c\<in>set s. \<not> isspace c)"
  by (auto simp: truthy_def strip_empty_iff)

section \<open>Properties of the cleaning pass\<close>

lemma clean_loop_no_match:
  "\<forall>p\<in>set ps. \<not> startswith t p \<Longrightarrow> clean_loop ps t = t"
  by (induction ps) auto

lemma clean_loop_first_match:
  "\<forall>q\<in>set before. \<not> startswith t q \<Longrightarrow> startswith t p \<Longrightarrow>
   clean_loop (before @ p # after) t = clean_loop after (strip (drop (length p) t))"
  by (induction before) auto

lemma find_first_match:
  "\<forall>q\<in>set before. \<not> startswith t q \<Longrightarrow> startswith t p \<Longrightarrow>
   find (startswith t) (before @ p # after) = Some p"
  by (induction before) auto

lemma find_no_match:
  "\<forall>p\<in>set ps. \<not> startswith t p \<Longrightarrow> find (startswith t) ps = None"
  by (induction ps) auto

text \<open>
  The response \<open>Translation::x\<close> loses two prefixes in one call: entry 4
  (\<open>Translation:\<close>) and then entry 5 (the colon), where removing the first matching
  entry only would leave \<open>:x\<close>.
\<close>

theorem clean_translation_two_prefixes:
  "clean_translation [84, 114, 97, 110, 115, 108, 97, 116, 105, 111, 110, 58, 58, 120] = [120] \<and>
   spec_clean_first_match remove_prefixes
     [84, 114, 97, 110, 115, 108, 97, 116, 105, 111, 110, 58, 58, 120] = [58, 120]"
  by (simp add: clean_translation_def spec_clean_first_match_def remove_prefixes_def
      startswith_def strip_def isspace_def)

text \<open>
  Claim C3, as the code has it. The cleaning function makes one pass over the fixed
  ordered list. A response that starts with no entry is only trimmed. Otherwise the
  first entry \<open>p\<close> that matches the response (case-sensitively, at its start) is
  removed and the rest trimmed, and the pass goes on with the entries listed after
  \<open>p\<close> on that rest, so a later entry can be removed as well; when none of the later
  entries matches the rest, exactly one prefix has been removed and the result is the
  one the first-match-only reading gives.
\<close>

theorem clean_translation_single_pass:
  "((\<forall>p\<in>set remove_prefixes. \<not> startswith t p) \<longrightarrow> clean_translation t = strip t) \<and>
   (remove_prefixes = before @ p # after \<and> (\<forall>q\<in>set before. \<not> startswith t q) \<and>
    startswith t p \<longrightarrow>
      clean_translation t = strip (clean_loop after (strip (drop (length p) t))) \<and>
      ((\<forall>q\<in>set after. \<not> startswith (strip (drop (length p) t)) q) \<longrightarrow>
         clean_translation t = strip (drop (length p) t) \<and>
         clean_translation t = spec_clean_first_match remove_prefixes t))"
proof (intro conjI impI)
  assume "\<forall>p\<in>set remove_prefixes. \<not> startswith t p"
  then show "clean_translation t = strip t"
    by (simp add: clean_translation_def clean_loop_no_match)
next
  assume h: "remove_prefixes = before @ p # after \<and> (\<forall>q\<in>set before. \<not> startswith t q) \<and>
    startswith t p"
  then have eq: "remove_prefixes = before @ p # after"
    and nb: "\<forall>q\<in>set before. \<not> startswith t q" and sp: "startswith t p"
    by blast+
  from nb sp
  have "clean_loop (before @ p # after) t = clean_loop after (strip (drop (length p) t))"
    by (rule clean_loop_first_match)
  then show "clean_translation t = strip (clean_loop after (strip (drop (length p) t)))"
    unfolding clean_translation_def eq by (rule arg_cong)
next
  assume h: "remove_prefixes = before @ p # after \<and> (\<forall>q\<in>set before. \<not> startswith t q) \<and>
    startswith t p"
    and n: "\<forall>q\<in>set after. \<not> startswith (strip (drop (length p) t)) q"
  from h have eq: "remove_prefixes = before @ p # after"
    and nb: "\<forall>q\<in>set before. \<not> startswith t q" and sp: "startswith t p"
    by blast+
  from nb sp
  have "clean_loop (before @ p # after) t = clean_loop after (strip (drop (length p) t))"
    by (rule clean_loop_first_match)
  also from n have "\<dots> = strip (drop (length p) t)"
    by (rule clean_loop_no_match)
  finally show c: "clean_translation t = strip (drop (length p) t)"
    unfolding clean_translation_def eq by (simp only: strip_strip)
  from nb sp have "find (startswith t) (before @ p # after) = Some p"
    by (rule find_first_match)
  then have "spec_clean_first_match remove_prefixes t = strip (drop (length p) t)"
    unfolding spec_clean_first_match_def eq by (simp only: option.case)
  with c show "clean_translation t = spec_clean_first_match remove_prefixes t"
    by simp
qed

theorem clean_translation_single_pass_witness:
  "clean_translation [104, 105, 32] = [104, 105] \<and>
   clean_translation [84, 114, 97, 110, 115, 108, 97, 116, 105, 111, 110, 58, 58, 120] =
     strip (clean_loop (drop 4 remove_prefixes) [58, 120]) \<and>
   clean_translation [84, 114, 97, 110, 115, 108, 97, 116, 105, 111, 110, 58, 32, 104, 105] =
     [104, 105]"
proof -
  have a: "clean_translation [104, 105, 32] = strip [104, 105, 32]"
    using clean_translation_single_pass [of "[104, 105, 32]"]
    by (simp add: remove_prefixes_def startswith_def)
  have b: "clean_translation [84, 114, 97, 110, 115, 108, 97, 116, 105, 111, 110, 58, 58, 120] =
     strip (clean_loop (drop 4 remove_prefixes) [58, 120])"
    using clean_translation_single_pass
      [of "[84, 114, 97, 110, 115, 108, 97, 116, 105, 111, 110, 58, 58, 120]"
          "take 3 remove_prefixes" "[84, 114, 97, 110, 115, 108, 97, 116, 105, 111, 110, 58]"
          "drop 4 remove_prefixes"]
    by (simp add: remove_prefixes_def startswith_def strip_def isspace_def)
  have c: "clean_translation [84, 114, 97, 110, 115, 108, 97, 116, 105, 111, 110, 58, 32, 104, 105] =
     [104, 105]"
    using clean_translation_single_pass
      [of "[84, 114, 97, 110, 115, 108, 97, 116, 105, 111, 110, 58, 32, 104, 105]"
          "take 3 remove_prefixes" "[84, 114, 97, 110, 115, 108, 97, 116, 105, 111, 110, 58]"
          "drop 4 remove_prefixes"]
    by (simp add: remove_prefixes_def startswith_def strip_def isspace_def)
  from a b c show ?thesis by (simp add: strip_def isspace_def)
qed

text \<open>
  Cleaning \<open>::x\<close> removes one colon (the entry for the colon is met once in the
  pass), and cleaning the result removes the other.
\<close>

theorem clean_translation_not_idempotent:
  "clean_translation (clean_translation [58, 58, 120]) \<noteq> clean_translation [58, 58, 120]"
  by (simp add: clean_translation_def remove_prefixes_def startswith_def strip_def isspace_def)

text \<open>
  Claim C4, as the code has it. Cleaning is idempotent on every response whose cleaned
  form starts with none of the listed prefixes: then
  \<open>clean(clean(s)) = clean(s)\<close>.
\<close>

theorem clean_translation_idempotent_when_clean:
  assumes "\<forall>p\<in>set remove_prefixes. \<not> startswith (clean_translation s) p"
  shows "clean_translation (clean_translation s) = clean_translation s"
proof -
  have "clean_loop remove_prefixes (clean_translation s) = clean_translation s"
    using assms by (rule clean_loop_no_match)
  then have "clean_translation (clean_translation s) = strip (clean_translation s)"
    by (simp add: clean_translation_def)
  also have "\<dots> = clean_translation s"
    by (simp add: clean_translation_def strip_strip)
  finally show ?thesis .
qed

theorem clean_translation_idempotent_when_clean_witness:
  "clean_translation [84, 114, 97, 110, 115, 108, 97, 116, 105, 111, 110, 58, 32, 104, 105] = [104, 105] \<and>
   clean_translation (clean_translation [84, 114, 97, 110, 115, 108, 97, 116, 105, 111, 110, 58, 32, 104, 105]) =
   clean_translation [84, 114, 97, 110, 115, 108, 97, 116, 105, 111, 110, 58, 32, 104, 105]"
proof -
  have v: "clean_translation [84, 114, 97, 110, 115, 108, 97, 116, 105, 111, 110, 58, 32, 104, 105] = [104, 105]"
    by (simp add: clean_translation_def remove_prefixes_def startswith_def strip_def isspace_def)
  have "\<forall>p\<in>set remove_prefixes. \<not> startswith (clean_translation [84, 114, 97, 110, 115, 108, 97, 116, 105, 111, 110, 58, 32, 104, 105]) p"
    unfolding v by (simp add: remove_prefixes_def startswith_def)
  then show ?thesis
    using v clean_translation_idempotent_when_clean
      [of "[84, 114, 97, 110, 115, 108, 97, 116, 105, 111, 110, 58, 32, 104, 105]"]
    by blast
qed

section \<open>The subtitle slots\<close>

text \<open>
  Claim C1. For every window state and every call of \<open>on_translation_finished\<close>: when
  the original text of the current slot equals the original text of the result, the
  translation of the current slot becomes the translated text (its other two entries
  and the previous slot stay as they are); otherwise the whole state is unchanged.
  \<open>on_translation_failed\<close> applies the same gate and writes the failure marker.
\<close>

theorem translation_result_gate:
  "(original (current_subtitle w) = original_text \<longrightarrow>
      current_subtitle (on_translation_finished w original_text translated_text source_language) =
        (current_subtitle w)\<lparr>translation := translated_text\<rparr> \<and>
      previous_subtitle (on_translation_finished w original_text translated_text source_language) =
        previous_subtitle w \<and>
      current_subtitle (on_translation_failed w original_text error_msg) =
        (current_subtitle w)\<lparr>translation := failure_marker\<rparr> \<and>
      previous_subtitle (on_translation_failed w original_text error_msg) = previous_subtitle w) \<and>
   (original (current_subtitle w) \<noteq> original_text \<longrightarrow>
      on_translation_finished w original_text translated_text source_language = w \<and>
      on_translation_failed w original_text error_msg = w)"
  by (simp add: on_translation_finished_def on_translation_failed_def update_display_def)

theorem translation_result_gate_witness:
  "current_subtitle (on_translation_finished sample_window [104, 105] [20320, 22909] [101, 110]) =
     \<lparr>original = [104, 105], translation = [20320, 22909], language = [101, 110]\<rparr> \<and>
   current_subtitle (on_translation_failed sample_window [104, 105] [120]) =
     \<lparr>original = [104, 105], translation = failure_marker, language = [101, 110]\<rparr> \<and>
   on_translation_finished sample_window [121, 111] [20320, 22909] [101, 110] = sample_window \<and>
   on_translation_failed sample_window [121, 111] [120] = sample_window"
  using translation_result_gate [of sample_window "[104, 105]" "[20320, 22909]" "[101, 110]" "[120]"]
    translation_result_gate [of sample_window "[121, 111]" "[20320, 22909]" "[101, 110]" "[120]"]
  by (simp add: sample_window_def)

text \<open>
  A recognized text of two spaces becomes the original text of the current slot, but
  \<open>add_translation_task\<close> puts nothing on the queue for it.
\<close>

theorem on_speech_recognized_blank_not_submitted:
  "worker sample_window = Some \<lparr>request_queue = []\<rparr> \<and>
   worker (on_speech_recognized sample_window [32, 32] [101, 110]) = Some \<lparr>request_queue = []\<rparr> \<and>
   original (current_subtitle (on_speech_recognized sample_window [32, 32] [101, 110])) = [32, 32]"
  by (simp add: on_speech_recognized_def sample_window_def update_display_def
      add_translation_task_def truthy_def strip_def isspace_def Let_def)

lemma add_translation_task_iff:
  "add_translation_task tw text lang =
     (if \<exists>c\<in>set text. \<not> isspace c
      then tw\<lparr>request_queue := request_queue tw @ [(text, lang)]\<rparr> else tw)"
  unfolding add_translation_task_def by (simp only: strip_truthy_iff)

lemma stripped_long_has_text:
  assumes "text = strip raw" and "length text > 1"
  shows "\<exists>c\<in>set text. \<not> isspace c"
proof -
  from assms have "strip text \<noteq> []"
    by (auto simp: strip_strip)
  then show ?thesis by (simp add: strip_empty_iff)
qed

text \<open>
  Claim C2, as the code has it. For every call of \<open>on_speech_recognized\<close>: when the
  original text of the current slot is non-empty the current entry is copied into the
  previous slot; the current slot becomes the recognized text, the pending marker and
  the language; neither translation handler changes the original text of the current
  slot; and the worker, when there is one, gets the task \<open>(text, language)\<close> at the
  back of its queue exactly when the text has a character that is not whitespace. The
  texts the recognizer emits (stripped, longer than one character) always have one.
\<close>

theorem on_speech_recognized_effect:
  "previous_subtitle (on_speech_recognized w text lang) =
     (if original (current_subtitle w) \<noteq> [] then current_subtitle w else previous_subtitle w) \<and>
   current_subtitle (on_speech_recognized w text lang) =
     \<lparr>original = text, translation = pending_marker, language = lang\<rparr> \<and>
   original (current_subtitle (on_translation_finished w original_text translated_text source_language)) =
     original (current_subtitle w) \<and>
   original (current_subtitle (on_translation_failed w original_text error_msg)) =
     original (current_subtitle w) \<and>
   worker (on_speech_recognized w text lang) =
     (case worker w of
        None \<Rightarrow> None
      | Some tw \<Rightarrow>
          Some (if \<exists>c\<in>set text. \<not> isspace c
                then tw\<lparr>request_queue := request_queue tw @ [(text, lang)]\<rparr>
                else tw)) \<and>
   (text = strip raw \<and> length text > 1 \<longrightarrow>
      worker (on_speech_recognized w text lang) =
        map_option (\<lambda>tw. tw\<lparr>request_queue := request_queue tw @ [(text, lang)]\<rparr>) (worker w))"
proof (intro conjI impI)
  show "previous_subtitle (on_speech_recognized w text lang) =
     (if original (current_subtitle w) \<noteq> [] then current_subtitle w else previous_subtitle w)"
    by (simp add: on_speech_recognized_def update_display_def truthy_def Let_def
        split: option.split)
  show "current_subtitle (on_speech_recognized w text lang) =
     \<lparr>original = text, translation = pending_marker, language = lang\<rparr>"
    by (simp add: on_speech_recognized_def update_display_def truthy_def Let_def
        split: option.split)
  show "original (current_subtitle (on_translation_finished w original_text translated_text source_language)) =
     original (current_subtitle w)"
    by (simp add: on_translation_finished_def update_display_def)
  show "original (current_subtitle (on_translation_failed w original_text error_msg)) =
     original (current_subtitle w)"
    by (simp add: on_translation_failed_def update_display_def)
  show w: "worker (on_speech_recognized w text lang) =
     (case worker w of
        None \<Rightarrow> None
      | Some tw \<Rightarrow>
          Some (if \<exists>c\<in>set text. \<not> isspace c
                then tw\<lparr>request_queue := request_queue tw @ [(text, lang)]\<rparr>
                else tw))"
    by (simp add: on_speech_recognized_def update_display_def truthy_def Let_def
        add_translation_task_iff split: option.split)
  assume "text = strip raw \<and> length text > 1"
  then have "\<exists>c\<in>set text. \<not> isspace c"
    using stripped_long_has_text by blast
  with w show "worker (on_speech_recognized w text lang) =
        map_option (\<lambda>tw. tw\<lparr>request_queue := request_queue tw @ [(text, lang)]\<rparr>) (worker w)"
    by (simp split: option.split)
qed

theorem on_speech_recognized_effect_witness:
  "previous_subtitle (on_speech_recognized sample_window [121, 111] [101, 110]) =
     \<lparr>original = [104, 105], translation = pending_marker, language = [101, 110]\<rparr> \<and>
   current_subtitle (on_speech_recognized sample_window [121, 111] [101, 110]) =
     \<lparr>original = [121, 111], translation = pending_marker, language = [101, 110]\<rparr> \<and>
   worker (on_speech_recognized sample_window [121, 111] [101, 110]) =
     Some \<lparr>request_queue = [([121, 111], [101, 110])]\<rparr>"
proof -
  have s: "[121, 111] = strip [32, 121, 111] \<and> length [121, 111 :: nat] > 1"
    by (simp add: strip_def isspace_def)
  show ?thesis
    using s on_speech_recognized_effect
      [of sample_window "[121, 111]" "[101, 110]" "[]" "[]" "[]" "[]" "[32, 121, 111]"]
    by (simp add: sample_window_def isspace_def)
qed

section \<open>One recognition call\<close>

lemma process_speech_raise_keeps_file:
  "tempfile_ok env \<Longrightarrow> wave_write_ok env \<Longrightarrow> transcribe env = TranscribeRaises \<Longrightarrow>
   temp_path env \<in> files (process_speech fs env)"
  by (simp add: process_speech_def)

text \<open>
  Claim C9 fails on the code: when \<open>model.transcribe\<close> raises, the handler of the
  outer \<open>try\<close> runs and \<open>os.unlink\<close> is never reached, so the temporary file is still
  on disk after \<open>_process_speech\<close> has returned.
\<close>

theorem process_speech_leaves_file_on_failure:
  "files (process_speech {} raising_env) = {temp_path raising_env} \<and>
   status_updated (process_speech {} raising_env) = [Recognizing, RecognitionError]"
  by (simp add: process_speech_def raising_env_def)

text \<open>
  Claim C10. When \<open>model.transcribe\<close> returns, \<open>text_recognized\<close> is emitted if and
  only if the stripped text is longer than one character, and then with the stripped
  text and the detected language. An empty or one-character text emits nothing: the
  window is not called, so no subtitle changes and no task is queued; the call
  reports a failed recognition and returns.
\<close>

theorem recognition_emitted_iff:
  assumes "tempfile_ok env" and "wave_write_ok env"
    and "transcribe env = TranscribeReturns result"
  shows "(text_recognized (process_speech fs env) \<noteq> [] \<longleftrightarrow>
            length (strip (result_text result)) > 1) \<and>
         text_recognized (process_speech fs env) =
           (if length (strip (result_text result)) > 1
            then [(strip (result_text result),
                   case result_language result of None \<Rightarrow> [117, 110, 107, 110, 111, 119, 110] | Some l \<Rightarrow> l)]
            else []) \<and>
         (length (strip (result_text result)) \<le> 1 \<longrightarrow>
            deliver_recognized w (text_recognized (process_speech fs env)) = w \<and>
            status_updated (process_speech fs env) = [Recognizing, RecognitionFailed])"
  using assms
  by (auto simp: process_speech_def truthy_def Let_def deliver_recognized_def)

theorem recognition_emitted_iff_witness:
  "text_recognized (process_speech {} (returning_env [32, 104, 105, 32])) = [([104, 105], [101, 110])] \<and>
   text_recognized (process_speech {} (returning_env [32, 97, 32])) = [] \<and>
   deliver_recognized sample_window (text_recognized (process_speech {} (returning_env [32, 97, 32]))) =
     sample_window \<and>
   text_recognized (process_speech {} (returning_env [])) = []"
proof -
  have s: "strip [32, 104, 105, 32] = [104, 105]" "strip [32, 97, 32] = [97]" "strip [] = []"
    by (simp_all add: strip_def isspace_def)
  show ?thesis
    using recognition_emitted_iff
        [where env = "returning_env [32, 104, 105, 32]" and fs = "{}" and w = sample_window
           and result = "\<lparr>result_text = [32, 104, 105, 32], result_language = Some [101, 110]\<rparr>"]
      recognition_emitted_iff
        [where env = "returning_env [32, 97, 32]" and fs = "{}" and w = sample_window
           and result = "\<lparr>result_text = [32, 97, 32], result_language = Some [101, 110]\<rparr>"]
      recognition_emitted_iff
        [where env = "returning_env []" and fs = "{}" and w = sample_window
           and result = "\<lparr>result_text = [], result_language = Some [101, 110]\<rparr>"]
    by (simp add: s returning_env_def deliver_recognized_def)
qed

section \<open>The segmentation loop\<close>

subsection \<open>Durations and single iterations\<close>

lemma keep_frames_eq: "keep_frames = 4"
proof -
  have "\<lfloor>75 / 16 :: rat\<rfloor> = 4"
    by (rule floor_unique) simp_all
  then show ?thesis
    by (simp add: keep_frames_def sample_rate_def chunk_size_def)
qed

lemma duration_of_0: "duration_of 0 = 0"
  by (simp add: duration_of_def)

lemma duration_of_1: "duration_of (Suc 0) = 8 / 125"
  by (simp add: duration_of_def chunk_size_def sample_rate_def)

lemma duration_of_mono: "m \<le> n \<Longrightarrow> duration_of m \<le> duration_of n"
  by (simp add: duration_of_def chunk_size_def sample_rate_def divide_right_mono)

lemma duration_of_ge_max_iff: "duration_of n \<ge> max_speech_duration \<longleftrightarrow> 125 \<le> n"
  by (simp add: duration_of_def max_speech_duration_def sample_rate_def chunk_size_def
      field_simps)

lemma closure_rule_iff:
  assumes "is_speaking r" and "audio_buffer r \<noteq> []"
  shows "closure_rule r v \<noteq> None \<longleftrightarrow>
         closure_due (length (audio_buffer r)) (silence_frames r) v"
  using assms by (simp add: closure_rule_def closure_due_def audio_duration_def Let_def)

lemma closure_due_loud:
  "closure_due n 0 v \<longleftrightarrow> duration_of n \<ge> max_speech_duration"
  by (simp add: closure_due_def duration_of_0 silence_duration_threshold_def)

lemma not_closure_due_first: "\<not> closure_due (Suc 0) 0 v"
  by (simp add: closure_due_loud duration_of_1 max_speech_duration_def)

lemma process_audio_stream_append:
  "process_audio_stream r (xs @ ys) =
     (case process_audio_stream r xs of
        (r', o1) \<Rightarrow>
          (case process_audio_stream r' ys of (r'', o2) \<Rightarrow> (r'', o1 @ o2)))"
  by (induction xs arbitrary: r) (auto split: prod.splits)

lemma stream_Cons_snd:
  "snd (process_audio_stream r (e # es)) =
     snd (handle_event r e) @ snd (process_audio_stream (fst (handle_event r e)) es)"
  by (simp split: prod.splits)

lemma stream_Cons_fst:
  "fst (process_audio_stream r (e # es)) =
     fst (process_audio_stream (fst (handle_event r e)) es)"
  by (simp split: prod.splits)

lemma process_frame_skipped: "frame_volume d = None \<Longrightarrow> process_frame r d = (r, [])"
  by (simp add: process_frame_def)

lemma process_frame_idle_quiet:
  assumes "\<not> is_speaking r" and "frame_volume d = Some v" and "v \<le> silence_threshold"
  shows "snd (process_frame r d) = []" and "\<not> is_speaking (fst (process_frame r d))"
    and "audio_buffer (fst (process_frame r d)) = audio_buffer r"
  using assms
  by (simp_all add: process_frame_def detect_activity_def closure_rule_def Let_def)

lemma process_frame_idle_loud:
  assumes "\<not> is_speaking r" and "frame_volume d = Some v" and "v > silence_threshold"
  shows "snd (process_frame r d) = []" and "is_speaking (fst (process_frame r d))"
    and "audio_buffer (fst (process_frame r d)) = [d]"
    and "silence_frames (fst (process_frame r d)) = 0"
proof -
  let ?r2 = "detect_activity (r\<lparr>debug_counter := debug_counter r + 1\<rparr>) d v"
  have r2: "is_speaking ?r2" "audio_buffer ?r2 = [d]" "silence_frames ?r2 = 0"
    using assms by (simp_all add: detect_activity_def)
  then have "closure_rule ?r2 v \<noteq> None \<longleftrightarrow> closure_due (Suc 0) 0 v"
    using closure_rule_iff [of ?r2 v] by simp
  then have none: "closure_rule ?r2 v = None"
    by (simp add: not_closure_due_first)
  have pf: "process_frame r d = (?r2, [])"
    using assms(2) none by (simp add: process_frame_def Let_def)
  show "snd (process_frame r d) = []" and "is_speaking (fst (process_frame r d))"
    and "audio_buffer (fst (process_frame r d)) = [d]"
    and "silence_frames (fst (process_frame r d)) = 0"
    using r2 by (simp_all add: pf)
qed

lemma process_frame_speaking:
  assumes "is_speaking r" and "frame_volume d = Some v"
  defines "j \<equiv> (if v > silence_threshold then 0 else silence_frames r + 1)"
  shows "closure_due (length (audio_buffer r) + 1) j v \<Longrightarrow> snd (process_frame r d) \<noteq> []"
    and "\<not> closure_due (length (audio_buffer r) + 1) j v \<Longrightarrow>
           snd (process_frame r d) = [] \<and> is_speaking (fst (process_frame r d)) \<and>
           audio_buffer (fst (process_frame r d)) = audio_buffer r @ [d] \<and>
           silence_frames (fst (process_frame r d)) = j"
proof -
  let ?r2 = "detect_activity (r\<lparr>debug_counter := debug_counter r + 1\<rparr>) d v"
  have r2: "is_speaking ?r2" "audio_buffer ?r2 = audio_buffer r @ [d]" "silence_frames ?r2 = j"
    using assms(1) by (simp_all add: detect_activity_def j_def)
  then have iff: "closure_rule ?r2 v \<noteq> None \<longleftrightarrow> closure_due (length (audio_buffer r) + 1) j v"
    using closure_rule_iff [of ?r2 v] by simp
  {
    assume "closure_due (length (audio_buffer r) + 1) j v"
    with iff obtain rule where "closure_rule ?r2 v = Some rule" by auto
    then show "snd (process_frame r d) \<noteq> []"
      using assms(2) r2 by (simp add: process_frame_def Let_def)
  }
  {
    assume "\<not> closure_due (length (audio_buffer r) + 1) j v"
    with iff have "closure_rule ?r2 v = None" by simp
    then have "process_frame r d = (?r2, [])"
      using assms(2) by (simp add: process_frame_def Let_def)
    then show "snd (process_frame r d) = [] \<and> is_speaking (fst (process_frame r d)) \<and>
           audio_buffer (fst (process_frame r d)) = audio_buffer r @ [d] \<and>
           silence_frames (fst (process_frame r d)) = j"
      using r2 by simp
  }
qed

lemma queue_empty_idle:
  "\<not> is_speaking r \<Longrightarrow> queue_empty r = (r, [])"
  by (simp add: queue_empty_def)

subsection \<open>Runs of frames\<close>

lemma idle_stays_idle:
  assumes "\<not> is_speaking r"
    and "\<forall>d v. Frame d \<in> set es \<and> frame_volume d = Some v \<longrightarrow> v \<le> silence_threshold"
  shows "snd (process_audio_stream r es) = [] \<and>
         \<not> is_speaking (fst (process_audio_stream r es)) \<and>
         audio_buffer (fst (process_audio_stream r es)) = audio_buffer r"
  using assms
proof (induction es arbitrary: r)
  case Nil
  then show ?case by simp
next
  case (Cons e es)
  have step: "snd (handle_event r e) = [] \<and> \<not> is_speaking (fst (handle_event r e)) \<and>
              audio_buffer (fst (handle_event r e)) = audio_buffer r"
  proof (cases e)
    case QueueEmpty
    with Cons.prems(1) show ?thesis by (simp add: queue_empty_idle)
  next
    case (Frame d)
    show ?thesis
    proof (cases "frame_volume d")
      case None
      with Frame Cons.prems(1) show ?thesis by (simp add: process_frame_skipped)
    next
      case (Some v)
      from Cons.prems(2) [rule_format, of d v] Frame Some
      have "v \<le> silence_threshold" by simp
      with Frame Some Cons.prems(1) show ?thesis
        by (simp add: process_frame_idle_quiet)
    qed
  qed
  from Cons.prems(2)
  have rest: "\<forall>d v. Frame d \<in> set es \<and> frame_volume d = Some v \<longrightarrow> v \<le> silence_threshold"
    by (metis list.set_intros(2))
  from step have "\<not> is_speaking (fst (handle_event r e))" by simp
  from Cons.IH [OF this rest] step show ?case
    by (simp add: stream_Cons_snd stream_Cons_fst del: process_audio_stream.simps)
qed

lemma loud_run_no_closure:
  assumes "is_speaking r" and "audio_buffer r \<noteq> []"
    and "\<forall>d\<in>set ls. \<exists>v. frame_volume d = Some v \<and> v > silence_threshold"
    and "duration_of (length (audio_buffer r) + length ls) < max_speech_duration"
  shows "snd (process_audio_stream r (map Frame ls)) = [] \<and>
         is_speaking (fst (process_audio_stream r (map Frame ls))) \<and>
         audio_buffer (fst (process_audio_stream r (map Frame ls))) = audio_buffer r @ ls \<and>
         silence_frames (fst (process_audio_stream r (map Frame ls))) =
           (if ls = [] then silence_frames r else 0)"
  using assms
proof (induction ls arbitrary: r)
  case Nil
  then show ?case by simp
next
  case (Cons d ds)
  from Cons.prems(3) obtain v where v: "frame_volume d = Some v" "v > silence_threshold"
    by auto
  have "duration_of (length (audio_buffer r) + 1) \<le>
        duration_of (length (audio_buffer r) + length (d # ds))"
    by (rule duration_of_mono) simp
  with Cons.prems(4) have "\<not> closure_due (length (audio_buffer r) + 1) 0 v"
    by (simp add: closure_due_loud)
  with process_frame_speaking(2) [OF Cons.prems(1) v(1)] v(2)
  have step: "snd (process_frame r d) = []" "is_speaking (fst (process_frame r d))"
    "audio_buffer (fst (process_frame r d)) = audio_buffer r @ [d]"
    "silence_frames (fst (process_frame r d)) = 0"
    by simp_all
  have "snd (process_audio_stream (fst (process_frame r d)) (map Frame ds)) = [] \<and>
         is_speaking (fst (process_audio_stream (fst (process_frame r d)) (map Frame ds))) \<and>
         audio_buffer (fst (process_audio_stream (fst (process_frame r d)) (map Frame ds))) =
           audio_buffer (fst (process_frame r d)) @ ds \<and>
         silence_frames (fst (process_audio_stream (fst (process_frame r d)) (map Frame ds))) =
           (if ds = [] then silence_frames (fst (process_frame r d)) else 0)"
    using Cons.prems(3,4) step by (intro Cons.IH) simp_all
  with step show ?case
    by (simp add: stream_Cons_snd stream_Cons_fst del: process_audio_stream.simps)
qed

lemma loud_run_emits:
  assumes "is_speaking r" and "audio_buffer r \<noteq> []"
    and "\<forall>d\<in>set ls. \<exists>v. frame_volume d = Some v \<and> v > silence_threshold"
    and "duration_of (length (audio_buffer r)) < max_speech_duration"
    and "duration_of (length (audio_buffer r) + length ls) \<ge> max_speech_duration"
  shows "snd (process_audio_stream r (map Frame ls)) \<noteq> []"
  using assms
proof (induction ls arbitrary: r)
  case Nil
  then show ?case by simp
next
  case (Cons d ds)
  from Cons.prems(3) obtain v where v: "frame_volume d = Some v" "v > silence_threshold"
    by auto
  show ?case
  proof (cases "closure_due (length (audio_buffer r) + 1) 0 v")
    case True
    with process_frame_speaking(1) [OF Cons.prems(1) v(1)] v(2)
    have "snd (process_frame r d) \<noteq> []" by simp
    then show ?thesis
      by (simp add: stream_Cons_snd stream_Cons_fst del: process_audio_stream.simps)
  next
    case False
    with process_frame_speaking(2) [OF Cons.prems(1) v(1)] v(2)
    have step: "snd (process_frame r d) = []" "is_speaking (fst (process_frame r d))"
      "audio_buffer (fst (process_frame r d)) = audio_buffer r @ [d]"
      by simp_all
    from False have "duration_of (length (audio_buffer (fst (process_frame r d)))) < max_speech_duration"
      by (simp add: closure_due_loud step)
    with Cons.prems(3,5) step
    have "snd (process_audio_stream (fst (process_frame r d)) (map Frame ds)) \<noteq> []"
      by (intro Cons.IH) simp_all
    then show ?thesis
      by (simp add: stream_Cons_snd stream_Cons_fst del: process_audio_stream.simps)
  qed
qed

lemma quiet_run_emits_iff:
  assumes "is_speaking r" and "audio_buffer r \<noteq> []"
    and "\<forall>d\<in>set qs. \<exists>v. frame_volume d = Some v \<and> v \<le> silence_threshold"
  shows "snd (process_audio_stream r (map Frame qs)) \<noteq> [] \<longleftrightarrow>
         (\<exists>k<length qs. \<exists>v. frame_volume (qs ! k) = Some v \<and>
            closure_due (length (audio_buffer r) + k + 1) (silence_frames r + k + 1) v)"
  using assms
proof (induction qs arbitrary: r)
  case Nil
  then show ?case by simp
next
  case (Cons d ds)
  from Cons.prems(3) obtain v where v: "frame_volume d = Some v" "v \<le> silence_threshold"
    by auto
  show ?case
  proof (cases "closure_due (length (audio_buffer r) + 1) (silence_frames r + 1) v")
    case True
    with process_frame_speaking(1) [OF Cons.prems(1) v(1)] v(2)
    have "snd (process_frame r d) \<noteq> []" by simp
    then have l: "snd (process_audio_stream r (map Frame (d # ds))) \<noteq> []"
      by (simp add: stream_Cons_snd stream_Cons_fst del: process_audio_stream.simps)
    from True v(1)
    have "\<exists>k<length (d # ds). \<exists>v. frame_volume ((d # ds) ! k) = Some v \<and>
            closure_due (length (audio_buffer r) + k + 1) (silence_frames r + k + 1) v"
      by (intro exI [of _ 0]) simp
    with l show ?thesis by simp
  next
    case False
    with process_frame_speaking(2) [OF Cons.prems(1) v(1)] v(2)
    have step: "snd (process_frame r d) = []" "is_speaking (fst (process_frame r d))"
      "audio_buffer (fst (process_frame r d)) = audio_buffer r @ [d]"
      "silence_frames (fst (process_frame r d)) = silence_frames r + 1"
      by simp_all
    have ih: "snd (process_audio_stream (fst (process_frame r d)) (map Frame ds)) \<noteq> [] \<longleftrightarrow>
         (\<exists>k<length ds. \<exists>v. frame_volume (ds ! k) = Some v \<and>
            closure_due (length (audio_buffer (fst (process_frame r d))) + k + 1)
              (silence_frames (fst (process_frame r d)) + k + 1) v)"
      using Cons.prems(3) step by (intro Cons.IH) simp_all
    have l: "snd (process_audio_stream r (map Frame (d # ds))) \<noteq> [] \<longleftrightarrow>
             snd (process_audio_stream (fst (process_frame r d)) (map Frame ds)) \<noteq> []"
      using step(1)
      by (simp add: stream_Cons_snd stream_Cons_fst del: process_audio_stream.simps)
    have "(\<exists>k<length (d # ds). \<exists>v. frame_volume ((d # ds) ! k) = Some v \<and>
            closure_due (length (audio_buffer r) + k + 1) (silence_frames r + k + 1) v) \<longleftrightarrow>
          (\<exists>k<length ds. \<exists>v. frame_volume (ds ! k) = Some v \<and>
            closure_due (length (audio_buffer r) + 1 + k + 1) (silence_frames r + 1 + k + 1) v)"
      (is "?A \<longleftrightarrow> ?B")
    proof
      assume ?A
      then obtain k w where k: "k < length (d # ds)" "frame_volume ((d # ds) ! k) = Some w"
        "closure_due (length (audio_buffer r) + k + 1) (silence_frames r + k + 1) w"
        by blast
      show ?B
      proof (cases k)
        case 0
        with k v False show ?thesis by simp
      next
        case (Suc k')
        with k show ?thesis by (intro exI [of _ k']) simp
      qed
    next
      assume ?B
      then obtain k w where k: "k < length ds" "frame_volume (ds ! k) = Some w"
        "closure_due (length (audio_buffer r) + 1 + k + 1) (silence_frames r + 1 + k + 1) w"
        by blast
      then show ?A by (intro exI [of _ "Suc k"]) simp
    qed
    with l ih step show ?thesis by simp
  qed
qed

lemma stream_append_snd:
  "snd (process_audio_stream r (xs @ ys)) =
     snd (process_audio_stream r xs) @
     snd (process_audio_stream (fst (process_audio_stream r xs)) ys)"
  by (simp add: process_audio_stream_append split: prod.splits)

lemma stream_append_fst:
  "fst (process_audio_stream r (xs @ ys)) =
     fst (process_audio_stream (fst (process_audio_stream r xs)) ys)"
  by (simp add: process_audio_stream_append split: prod.splits)

lemma closure_due_quiet_run_iff:
  assumes quiet: "\<forall>d\<in>set quiet. \<exists>v. frame_volume d = Some v \<and> v \<le> silence_threshold"
    and below: "duration_of a < max_speech_duration"
  shows "(\<exists>k<length quiet. \<exists>v. frame_volume (quiet ! k) = Some v \<and>
            closure_due (a + k + 1) (0 + k + 1) v) \<longleftrightarrow>
         (duration_of (length quiet) \<ge> silence_duration_threshold \<or>
          duration_of (a + length quiet) \<ge> max_speech_duration \<or>
          (\<exists>k<length quiet. \<exists>v. frame_volume (quiet ! k) = Some v \<and>
             v < silence_threshold * (7 / 10) \<and> duration_of (k + 1) \<ge> 8 / 10 \<and>
             duration_of (a + k + 1) \<ge> 1))"
  (is "?L \<longleftrightarrow> ?R")
proof
  assume ?L
  then obtain k v where k: "k < length quiet" "frame_volume (quiet ! k) = Some v"
    and due: "closure_due (a + k + 1) (0 + k + 1) v"
    by blast
  from k(1) have m1: "duration_of (k + 1) \<le> duration_of (length quiet)"
    by (intro duration_of_mono) simp
  from k(1) have m2: "duration_of (a + k + 1) \<le> duration_of (a + length quiet)"
    by (intro duration_of_mono) simp
  from due consider
      "duration_of (k + 1) \<ge> silence_duration_threshold"
    | "duration_of (a + k + 1) \<ge> max_speech_duration"
    | "duration_of (a + k + 1) \<ge> 1 \<and> duration_of (k + 1) \<ge> 8 / 10 \<and>
       v < silence_threshold * (7 / 10)"
    by (auto simp: closure_due_def)
  then show ?R
  proof cases
    case 1
    with m1 show ?thesis by simp
  next
    case 2
    with m2 show ?thesis by simp
  next
    case 3
    with k show ?thesis by blast
  qed
next
  assume r: ?R
  have last: "\<exists>v. frame_volume (quiet ! (length quiet - 1)) = Some v \<and>
                closure_due (a + (length quiet - 1) + 1) (0 + (length quiet - 1) + 1) v"
    if ne: "quiet \<noteq> []"
      and c: "\<And>v. closure_due (a + length quiet) (length quiet) v"
  proof -
    from ne have "quiet ! (length quiet - 1) \<in> set quiet" by simp
    with quiet obtain v where "frame_volume (quiet ! (length quiet - 1)) = Some v" by blast
    moreover from ne have "a + (length quiet - 1) + 1 = a + length quiet"
      "0 + (length quiet - 1) + 1 = length quiet" by simp_all
    ultimately show ?thesis using c by simp
  qed
  from r consider
      "duration_of (length quiet) \<ge> silence_duration_threshold"
    | "duration_of (a + length quiet) \<ge> max_speech_duration"
    | "\<exists>k<length quiet. \<exists>v. frame_volume (quiet ! k) = Some v \<and>
             v < silence_threshold * (7 / 10) \<and> duration_of (k + 1) \<ge> 8 / 10 \<and>
             duration_of (a + k + 1) \<ge> 1"
    by blast
  then show ?L
  proof cases
    case 1
    then have ne: "quiet \<noteq> []"
      by (auto simp: duration_of_0 silence_duration_threshold_def)
    have "duration_of (length quiet) \<le> duration_of (a + length quiet)"
      by (intro duration_of_mono) simp
    with 1 have "\<And>v. closure_due (a + length quiet) (length quiet) v"
      by (simp add: closure_due_def silence_duration_threshold_def min_speech_duration_def)
    from last [OF ne this] ne show ?thesis
      by (intro exI [of _ "length quiet - 1"]) simp
  next
    case 2
    with below have ne: "quiet \<noteq> []" by auto
    from 2 have "\<And>v. closure_due (a + length quiet) (length quiet) v"
      by (simp add: closure_due_def)
    from last [OF ne this] ne show ?thesis
      by (intro exI [of _ "length quiet - 1"]) simp
  next
    case 3
    then show ?thesis by (auto simp: closure_due_def)
  qed
qed

subsection \<open>Concrete runs\<close>

lemma frombuffer_replicate:
  "frombuffer (concat (replicate n [lo, hi])) =
     Some (replicate n (or (push_bit 8 (ucast hi)) (ucast lo)))"
  by (induction n) simp_all

lemma volume_of_replicate:
  "n > 0 \<Longrightarrow> volume_of (replicate n x) = of_int (sint (np_abs x))"
  by (simp add: volume_of_def map_replicate_const sum_list_replicate)

lemma frame_volume_constant_frame:
  "frame_volume (constant_frame lo hi) =
     Some (of_int (sint (np_abs (or (push_bit 8 (ucast hi)) (ucast lo) :: 16 word))))"
proof -
  have "constant_frame lo hi \<noteq> []"
    by (simp add: constant_frame_def chunk_size_def)
  then show ?thesis
    by (simp add: frame_volume_def constant_frame_def frombuffer_replicate
        volume_of_replicate chunk_size_def)
qed

lemma frame_volume_samples:
  "frame_volume loud_frame = Some 200" "frame_volume second_loud_frame = Some 201"
  "frame_volume quiet_frame = Some 0" "frame_volume murmur_frame = Some 80"
  by (simp_all add: loud_frame_def second_loud_frame_def quiet_frame_def murmur_frame_def
      frame_volume_constant_frame np_abs_def)

lemmas segmenter_defs =
  process_frame_def detect_activity_def closure_rule_def audio_duration_def duration_of_def
  queue_empty_def reset_state_def last_frames_def initial_recognizer_def
  silence_threshold_def silence_duration_threshold_def min_speech_duration_def
  max_speech_duration_def chunk_size_def sample_rate_def Let_def

lemma short_utterance_run:
  "process_audio_stream initial_recognizer
     [Frame loud_frame, Frame quiet_frame, Frame quiet_frame, Frame quiet_frame,
      Frame quiet_frame, Frame quiet_frame, Frame quiet_frame, Frame quiet_frame,
      Frame quiet_frame, Frame quiet_frame, Frame quiet_frame, Frame quiet_frame,
      Frame quiet_frame, Frame quiet_frame, Frame quiet_frame, Frame quiet_frame] =
   (\<lparr>audio_buffer = [quiet_frame, quiet_frame, quiet_frame, quiet_frame],
     silence_frames = 0, is_speaking = False, debug_counter = 16\<rparr>,
    [(ShortUtteranceClosure,
      concat [loud_frame, quiet_frame, quiet_frame, quiet_frame, quiet_frame, quiet_frame,
              quiet_frame, quiet_frame, quiet_frame, quiet_frame, quiet_frame, quiet_frame,
              quiet_frame, quiet_frame, quiet_frame, quiet_frame])])"
  by (simp add: segmenter_defs frame_volume_samples keep_frames_eq)

lemma silence_closure_run:
  "snd (process_audio_stream initial_recognizer
     [Frame loud_frame, Frame murmur_frame, Frame murmur_frame, Frame murmur_frame,
      Frame murmur_frame, Frame murmur_frame, Frame murmur_frame, Frame murmur_frame,
      Frame murmur_frame, Frame murmur_frame, Frame murmur_frame, Frame murmur_frame,
      Frame murmur_frame, Frame murmur_frame, Frame murmur_frame, Frame murmur_frame,
      Frame murmur_frame, Frame murmur_frame, Frame murmur_frame, Frame murmur_frame]) =
    [(SilenceClosure,
      concat [loud_frame, murmur_frame, murmur_frame, murmur_frame,
      murmur_frame, murmur_frame, murmur_frame, murmur_frame,
      murmur_frame, murmur_frame, murmur_frame, murmur_frame,
      murmur_frame, murmur_frame, murmur_frame, murmur_frame,
      murmur_frame, murmur_frame, murmur_frame, murmur_frame])]"
  by (simp add: segmenter_defs frame_volume_samples keep_frames_eq)

subsection \<open>Every sub-threshold stream\<close>

text \<open>
  Claim C8. For every sequence of loop iterations in which each frame whose volume is
  computed has a volume below \<open>silence_threshold\<close> (queue timeouts and skipped frames
  may be interleaved), started from the initial state: no utterance is handed to
  \<open>_process_speech\<close>, so the model is never called, and after every prefix of the
  sequence the recognizer is not speaking and nothing has been emitted.
\<close>

theorem silent_stream_never_emits:
  assumes "\<forall>data v. Frame data \<in> set events \<and> frame_volume data = Some v \<longrightarrow>
             v < silence_threshold"
  shows "snd (process_audio_stream initial_recognizer events) = [] \<and>
         (\<forall>n. \<not> is_speaking (fst (process_audio_stream initial_recognizer (take n events))) \<and>
              snd (process_audio_stream initial_recognizer (take n events)) = [])"
proof -
  have idle: "\<not> is_speaking initial_recognizer"
    by (simp add: initial_recognizer_def)
  have quiet: "\<forall>d v. Frame d \<in> set (take n events) \<and> frame_volume d = Some v \<longrightarrow>
                 v \<le> silence_threshold" for n
  proof (intro allI impI)
    fix d v
    assume h: "Frame d \<in> set (take n events) \<and> frame_volume d = Some v"
    then have "Frame d \<in> set events" by (meson in_set_takeD)
    with h assms have "v < silence_threshold" by blast
    then show "v \<le> silence_threshold" by simp
  qed
  have pre: "\<not> is_speaking (fst (process_audio_stream initial_recognizer (take n events))) \<and>
             snd (process_audio_stream initial_recognizer (take n events)) = []" for n
    using idle_stays_idle [OF idle quiet [of n]] by simp
  from pre [of "length events"] pre show ?thesis by simp
qed

theorem silent_stream_never_emits_witness:
  "process_audio_stream initial_recognizer
     [Frame quiet_frame, QueueEmpty, Frame murmur_frame, Frame [7], Frame quiet_frame] =
   (\<lparr>audio_buffer = [], silence_frames = 3, is_speaking = False, debug_counter = 3\<rparr>, [])"
proof -
  have fv: "frame_volume [7] = None"
    by (simp add: frame_volume_def)
  have "\<forall>data v. Frame data \<in> set [Frame quiet_frame, QueueEmpty, Frame murmur_frame,
            Frame [7], Frame quiet_frame] \<and> frame_volume data = Some v \<longrightarrow>
          v < silence_threshold"
    using fv by (auto simp: frame_volume_samples silence_threshold_def)
  from silent_stream_never_emits [OF this]
  have "snd (process_audio_stream initial_recognizer
     [Frame quiet_frame, QueueEmpty, Frame murmur_frame, Frame [7], Frame quiet_frame]) = []"
    by simp
  moreover have "fst (process_audio_stream initial_recognizer
     [Frame quiet_frame, QueueEmpty, Frame murmur_frame, Frame [7], Frame quiet_frame]) =
     \<lparr>audio_buffer = [], silence_frames = 3, is_speaking = False, debug_counter = 3\<rparr>"
    by (simp add: segmenter_defs frame_volume_samples fv)
  ultimately show ?thesis by (simp add: prod_eq_iff)
qed

subsection \<open>A loud run followed by a silent run\<close>

text \<open>
  One loud frame (0.064 s, below the minimum of 0.5 s) followed by 19 murmur frames
  (1.216 s of silence) is closed by the silence rule, and followed by 15 silent frames
  (0.96 s, below the silence threshold of 1.2 s) it is closed by the short utterance
  rule; in both cases the condition
  \<open>(D \<ge> min and S \<ge> silence threshold) or D \<ge> max\<close> is false.
\<close>

theorem emits_with_short_loud_run:
  "snd (process_audio_stream initial_recognizer
     (map Frame ([loud_frame] @
        [murmur_frame, murmur_frame, murmur_frame, murmur_frame, murmur_frame, murmur_frame,
         murmur_frame, murmur_frame, murmur_frame, murmur_frame, murmur_frame, murmur_frame,
         murmur_frame, murmur_frame, murmur_frame, murmur_frame, murmur_frame, murmur_frame,
         murmur_frame]))) \<noteq> [] \<and>
   \<not> (duration_of (length [loud_frame]) \<ge> min_speech_duration \<and>
      duration_of (length
        [murmur_frame, murmur_frame, murmur_frame, murmur_frame, murmur_frame, murmur_frame,
         murmur_frame, murmur_frame, murmur_frame, murmur_frame, murmur_frame, murmur_frame,
         murmur_frame, murmur_frame, murmur_frame, murmur_frame, murmur_frame, murmur_frame,
         murmur_frame]) \<ge> silence_duration_threshold \<or>
      duration_of (length [loud_frame]) \<ge> max_speech_duration) \<and>
   snd (process_audio_stream initial_recognizer
     (map Frame ([loud_frame] @
        [quiet_frame, quiet_frame, quiet_frame, quiet_frame, quiet_frame, quiet_frame,
         quiet_frame, quiet_frame, quiet_frame, quiet_frame, quiet_frame, quiet_frame,
         quiet_frame, quiet_frame, quiet_frame]))) \<noteq> [] \<and>
   \<not> (duration_of (length [loud_frame]) \<ge> min_speech_duration \<and>
      duration_of (length
        [quiet_frame, quiet_frame, quiet_frame, quiet_frame, quiet_frame, quiet_frame,
         quiet_frame, quiet_frame, quiet_frame, quiet_frame, quiet_frame, quiet_frame,
         quiet_frame, quiet_frame, quiet_frame]) \<ge> silence_duration_threshold \<or>
      duration_of (length [loud_frame]) \<ge> max_speech_duration)"
proof -
  have d: "\<not> duration_of (length [loud_frame]) \<ge> min_speech_duration"
    "\<not> duration_of (length [loud_frame]) \<ge> max_speech_duration"
    by (simp_all add: duration_of_def chunk_size_def sample_rate_def min_speech_duration_def
        max_speech_duration_def)
  show ?thesis
    using d silence_closure_run short_utterance_run by simp
qed

lemma queue_empty_speaking:
  assumes "is_speaking r" and "audio_buffer r \<noteq> []"
  shows "snd (queue_empty r) \<noteq> [] \<longleftrightarrow>
         duration_of (length (audio_buffer r)) \<ge> min_speech_duration"
  using assms by (simp add: queue_empty_def)

lemma speaking_run_no_output:
  assumes "is_speaking r"
    and "\<forall>d\<in>set fs. \<exists>v. frame_volume d = Some v"
    and "snd (process_audio_stream r (map Frame fs)) = []"
  shows "is_speaking (fst (process_audio_stream r (map Frame fs))) \<and>
         audio_buffer (fst (process_audio_stream r (map Frame fs))) = audio_buffer r @ fs"
  using assms
proof (induction fs arbitrary: r)
  case Nil
  then show ?case by simp
next
  case (Cons d ds)
  from Cons.prems(2) obtain v where v: "frame_volume d = Some v" by auto
  from Cons.prems(3)
  have out: "snd (process_frame r d) = []"
    "snd (process_audio_stream (fst (process_frame r d)) (map Frame ds)) = []"
    by (simp_all add: stream_Cons_snd del: process_audio_stream.simps)
  let ?j = "if v > silence_threshold then 0 else silence_frames r + 1"
  have "\<not> closure_due (length (audio_buffer r) + 1) ?j v"
    using process_frame_speaking(1) [OF Cons.prems(1) v] out(1) by blast
  from process_frame_speaking(2) [OF Cons.prems(1) v this]
  have step: "is_speaking (fst (process_frame r d))"
    "audio_buffer (fst (process_frame r d)) = audio_buffer r @ [d]"
    by simp_all
  from Cons.prems(2) have rest: "\<forall>d\<in>set ds. \<exists>v. frame_volume d = Some v" by simp
  from Cons.IH [OF step(1) rest out(2)] step(2) show ?case
    by (simp add: stream_Cons_fst del: process_audio_stream.simps)
qed

lemma stream_timeout_snd:
  "snd (process_audio_stream r [QueueEmpty]) = snd (queue_empty r)"
  by (simp split: prod.splits)

lemma timeout_after_run:
  assumes loud: "\<forall>d\<in>set loud. \<exists>v. frame_volume d = Some v \<and> v > silence_threshold"
    and quiet: "\<forall>d\<in>set quiet. \<exists>v. frame_volume d = Some v \<and> v \<le> silence_threshold"
  shows "snd (process_audio_stream initial_recognizer
               (map Frame (loud @ quiet) @ [QueueEmpty])) \<noteq> [] \<longleftrightarrow>
         snd (process_audio_stream initial_recognizer (map Frame (loud @ quiet))) \<noteq> [] \<or>
         loud \<noteq> [] \<and> duration_of (length loud + length quiet) \<ge> min_speech_duration"
proof -
  let ?run = "process_audio_stream initial_recognizer (map Frame (loud @ quiet))"
  have idle: "\<not> is_speaking initial_recognizer"
    by (simp add: initial_recognizer_def)
  have split: "snd (process_audio_stream initial_recognizer
                 (map Frame (loud @ quiet) @ [QueueEmpty])) =
               snd ?run @ snd (queue_empty (fst ?run))"
    by (simp only: stream_append_snd stream_timeout_snd)
  show ?thesis
  proof (cases "snd ?run = []")
    case False
    with split show ?thesis by simp
  next
    case True
    show ?thesis
    proof (cases loud)
      case Nil
      have "\<forall>d v. Frame d \<in> set (map Frame quiet) \<and> frame_volume d = Some v \<longrightarrow>
              v \<le> silence_threshold"
        using quiet by auto
      from idle_stays_idle [OF idle this] Nil
      have "\<not> is_speaking (fst ?run)" by simp
      then have "snd (queue_empty (fst ?run)) = []"
        by (simp add: queue_empty_idle)
      with split True Nil show ?thesis by simp
    next
      case (Cons l ls)
      from loud Cons obtain v where v: "frame_volume l = Some v" "v > silence_threshold"
        by auto
      let ?r1 = "fst (process_frame initial_recognizer l)"
      note first = process_frame_idle_loud [OF idle v]
      have vols: "\<forall>d\<in>set (ls @ quiet). \<exists>v. frame_volume d = Some v"
        using loud quiet Cons by auto
      have out: "snd ?run = snd (process_audio_stream ?r1 (map Frame (ls @ quiet)))"
        and st: "fst ?run = fst (process_audio_stream ?r1 (map Frame (ls @ quiet)))"
        using first(1) Cons
        by (simp_all add: stream_Cons_snd stream_Cons_fst del: process_audio_stream.simps)
      from True out have "snd (process_audio_stream ?r1 (map Frame (ls @ quiet))) = []"
        by simp
      from speaking_run_no_output [OF first(2) vols this]
      have raw: "is_speaking (fst (process_audio_stream ?r1 (map Frame (ls @ quiet)))) \<and>
                 audio_buffer (fst (process_audio_stream ?r1 (map Frame (ls @ quiet)))) =
                   audio_buffer ?r1 @ (ls @ quiet)" .
      have fin: "is_speaking (fst ?run)" "audio_buffer (fst ?run) = loud @ quiet"
        unfolding st using raw first(3) Cons by simp_all
      then have "audio_buffer (fst ?run) \<noteq> []" using Cons by simp
      from queue_empty_speaking [OF fin(1) this] fin(2) split True Cons
      show ?thesis by simp
    qed
  qed
qed

lemma loud_then_quiet_frames_only:
  assumes loud: "\<forall>d\<in>set loud. \<exists>v. frame_volume d = Some v \<and> v > silence_threshold"
    and quiet: "\<forall>d\<in>set quiet. \<exists>v. frame_volume d = Some v \<and> v \<le> silence_threshold"
  shows "(snd (process_audio_stream initial_recognizer (map Frame (loud @ quiet))) \<noteq> [] \<longleftrightarrow>
           loud \<noteq> [] \<and>
           (duration_of (length quiet) \<ge> silence_duration_threshold \<or>
            duration_of (length loud + length quiet) \<ge> max_speech_duration \<or>
            (\<exists>k<length quiet. \<exists>v. frame_volume (quiet ! k) = Some v \<and>
               v < silence_threshold * (7 / 10) \<and> duration_of (k + 1) \<ge> 8 / 10 \<and>
               duration_of (length loud + k + 1) \<ge> 1))) \<and>
         (duration_of (length loud) \<ge> min_speech_duration \<and>
          duration_of (length quiet) \<ge> silence_duration_threshold \<or>
          duration_of (length loud) \<ge> max_speech_duration \<longrightarrow>
            snd (process_audio_stream initial_recognizer (map Frame (loud @ quiet))) \<noteq> [])"
proof -
  let ?out = "snd (process_audio_stream initial_recognizer (map Frame (loud @ quiet)))"
  let ?R = "loud \<noteq> [] \<and>
           (duration_of (length quiet) \<ge> silence_duration_threshold \<or>
            duration_of (length loud + length quiet) \<ge> max_speech_duration \<or>
            (\<exists>k<length quiet. \<exists>v. frame_volume (quiet ! k) = Some v \<and>
               v < silence_threshold * (7 / 10) \<and> duration_of (k + 1) \<ge> 8 / 10 \<and>
               duration_of (length loud + k + 1) \<ge> 1))"
  have idle: "\<not> is_speaking initial_recognizer"
    by (simp add: initial_recognizer_def)
  have main: "?out \<noteq> [] \<longleftrightarrow> ?R"
  proof (cases loud)
    case Nil
    have "\<forall>d v. Frame d \<in> set (map Frame quiet) \<and> frame_volume d = Some v \<longrightarrow>
            v \<le> silence_threshold"
      using quiet by auto
    from idle_stays_idle [OF idle this] Nil show ?thesis by simp
  next
    case (Cons l ls)
    from loud Cons obtain v where v: "frame_volume l = Some v" "v > silence_threshold"
      by auto
    let ?r1 = "fst (process_frame initial_recognizer l)"
    note first = process_frame_idle_loud [OF idle v]
    have ls: "\<forall>d\<in>set ls. \<exists>v. frame_volume d = Some v \<and> v > silence_threshold"
      using loud Cons by simp
    have ne1: "audio_buffer ?r1 \<noteq> []"
      using first by simp
    have out_loud: "snd (process_audio_stream initial_recognizer (map Frame loud)) =
                    snd (process_audio_stream ?r1 (map Frame ls))"
      and st_loud: "fst (process_audio_stream initial_recognizer (map Frame loud)) =
                    fst (process_audio_stream ?r1 (map Frame ls))"
      using first(1) Cons
      by (simp_all add: stream_Cons_snd stream_Cons_fst del: process_audio_stream.simps)
    show ?thesis
    proof (cases "duration_of (length loud) < max_speech_duration")
      case True
      then have "duration_of (length (audio_buffer ?r1) + length ls) < max_speech_duration"
        using first Cons by simp
      from loud_run_no_closure [OF first(2) ne1 ls this]
      have run: "snd (process_audio_stream ?r1 (map Frame ls)) = []"
        "is_speaking (fst (process_audio_stream ?r1 (map Frame ls)))"
        "audio_buffer (fst (process_audio_stream ?r1 (map Frame ls))) = loud"
        "silence_frames (fst (process_audio_stream ?r1 (map Frame ls))) = 0"
        using first Cons by simp_all
      let ?ra = "fst (process_audio_stream initial_recognizer (map Frame loud))"
      have ra: "is_speaking ?ra" "audio_buffer ?ra = loud" "silence_frames ?ra = 0"
        using run by (simp_all add: st_loud)
      have "?out = snd (process_audio_stream ?ra (map Frame quiet))"
        using run(1) by (simp add: stream_append_snd out_loud)
      moreover have "audio_buffer ?ra \<noteq> []"
        using ra Cons by simp
      note quiet_run_emits_iff [OF ra(1) this quiet]
      ultimately have "?out \<noteq> [] \<longleftrightarrow>
         (\<exists>k<length quiet. \<exists>v. frame_volume (quiet ! k) = Some v \<and>
            closure_due (length loud + k + 1) (0 + k + 1) v)"
        using ra by simp
      also have "\<dots> \<longleftrightarrow>
         (duration_of (length quiet) \<ge> silence_duration_threshold \<or>
          duration_of (length loud + length quiet) \<ge> max_speech_duration \<or>
          (\<exists>k<length quiet. \<exists>v. frame_volume (quiet ! k) = Some v \<and>
             v < silence_threshold * (7 / 10) \<and> duration_of (k + 1) \<ge> 8 / 10 \<and>
             duration_of (length loud + k + 1) \<ge> 1))"
        using quiet True by (rule closure_due_quiet_run_iff)
      finally show ?thesis using Cons by simp
    next
      case False
      then have ge: "duration_of (length loud) \<ge> max_speech_duration" by simp
      have "duration_of (length (audio_buffer ?r1)) < max_speech_duration"
        using first by (simp add: duration_of_1 max_speech_duration_def)
      moreover have "duration_of (length (audio_buffer ?r1) + length ls) \<ge> max_speech_duration"
        using ge first Cons by simp
      ultimately have "snd (process_audio_stream ?r1 (map Frame ls)) \<noteq> []"
        using first(2) ne1 ls by (intro loud_run_emits) simp_all
      then have l: "?out \<noteq> []"
        by (simp add: stream_append_snd out_loud)
      have "duration_of (length loud) \<le> duration_of (length loud + length quiet)"
        by (intro duration_of_mono) simp
      with ge have "duration_of (length loud + length quiet) \<ge> max_speech_duration"
        by simp
      with l Cons show ?thesis by simp
    qed
  qed
  have suff: "?out \<noteq> []"
    if h: "duration_of (length loud) \<ge> min_speech_duration \<and>
          duration_of (length quiet) \<ge> silence_duration_threshold \<or>
          duration_of (length loud) \<ge> max_speech_duration"
  proof -
    from h have ne: "loud \<noteq> []"
      by (auto simp: duration_of_0 min_speech_duration_def max_speech_duration_def)
    have "duration_of (length loud) \<le> duration_of (length loud + length quiet)"
      by (intro duration_of_mono) simp
    with h have "duration_of (length quiet) \<ge> silence_duration_threshold \<or>
            duration_of (length loud + length quiet) \<ge> max_speech_duration"
      by auto
    with ne main show ?thesis by blast
  qed
  from main suff show ?thesis by blast
qed

text \<open>
  Claim C5, as the code has it. For a run of frames above the threshold of duration
  \<open>D\<close> followed by a run of frames not above it of duration \<open>S\<close>, from the initial
  state and with no queue timeout while the frames are processed, an utterance is
  emitted if and only if the loud run is not empty and
  \<open>S \<ge> silence_duration_threshold\<close> (the minimum is measured on the whole buffer, loud
  and silent frames together, and is then met), or \<open>D + S \<ge> max_speech_duration\<close>, or
  the short utterance rule fires at some silent frame (at least 0.8 s of silence, at
  least 1.0 s buffered, the frame's volume below 0.7 times the threshold). In
  particular \<open>(D \<ge> min_speech_duration and S \<ge> silence_duration_threshold) or
  D \<ge> max_speech_duration\<close> is sufficient. When the queue runs dry after the last
  frame, the timeout is a fourth way to close: with one timeout after the frames an
  utterance is emitted if and only if one was emitted by the frames already, or the
  loud run is not empty and \<open>D + S \<ge> min_speech_duration\<close>.
\<close>

theorem loud_then_quiet_emits_iff:
  assumes loud: "\<forall>d\<in>set loud. \<exists>v. frame_volume d = Some v \<and> v > silence_threshold"
    and quiet: "\<forall>d\<in>set quiet. \<exists>v. frame_volume d = Some v \<and> v \<le> silence_threshold"
  shows "(snd (process_audio_stream initial_recognizer (map Frame (loud @ quiet))) \<noteq> [] \<longleftrightarrow>
           loud \<noteq> [] \<and>
           (duration_of (length quiet) \<ge> silence_duration_threshold \<or>
            duration_of (length loud + length quiet) \<ge> max_speech_duration \<or>
            (\<exists>k<length quiet. \<exists>v. frame_volume (quiet ! k) = Some v \<and>
               v < silence_threshold * (7 / 10) \<and> duration_of (k + 1) \<ge> 8 / 10 \<and>
               duration_of (length loud + k + 1) \<ge> 1))) \<and>
         (duration_of (length loud) \<ge> min_speech_duration \<and>
          duration_of (length quiet) \<ge> silence_duration_threshold \<or>
          duration_of (length loud) \<ge> max_speech_duration \<longrightarrow>
            snd (process_audio_stream initial_recognizer (map Frame (loud @ quiet))) \<noteq> []) \<and>
         (snd (process_audio_stream initial_recognizer
                (map Frame (loud @ quiet) @ [QueueEmpty])) \<noteq> [] \<longleftrightarrow>
            snd (process_audio_stream initial_recognizer (map Frame (loud @ quiet))) \<noteq> [] \<or>
            loud \<noteq> [] \<and> duration_of (length loud + length quiet) \<ge> min_speech_duration)"
  using loud_then_quiet_frames_only [OF loud quiet] timeout_after_run [OF loud quiet]
  by blast

theorem loud_then_quiet_emits_iff_witness:
  "snd (process_audio_stream initial_recognizer
     (map Frame ([loud_frame] @ replicate 15 quiet_frame))) \<noteq> [] \<and>
   snd (process_audio_stream initial_recognizer
     (map Frame ([loud_frame] @ replicate 12 quiet_frame))) = [] \<and>
   snd (process_audio_stream initial_recognizer
     (map Frame (replicate 8 loud_frame @ replicate 19 murmur_frame))) \<noteq> [] \<and>
   snd (process_audio_stream initial_recognizer
     (map Frame ([loud_frame] @ replicate 12 quiet_frame) @ [QueueEmpty])) \<noteq> []"
proof -
  have l1: "\<forall>d\<in>set [loud_frame]. \<exists>v. frame_volume d = Some v \<and> v > silence_threshold"
    and l8: "\<forall>d\<in>set (replicate 8 loud_frame). \<exists>v. frame_volume d = Some v \<and> v > silence_threshold"
    by (simp_all add: frame_volume_samples silence_threshold_def)
  have q: "\<forall>d\<in>set (replicate n quiet_frame). \<exists>v. frame_volume d = Some v \<and> v \<le> silence_threshold"
    and m: "\<forall>d\<in>set (replicate n murmur_frame). \<exists>v. frame_volume d = Some v \<and> v \<le> silence_threshold"
    for n
    by (simp_all add: frame_volume_samples silence_threshold_def)
  have a: "snd (process_audio_stream initial_recognizer
     (map Frame ([loud_frame] @ replicate 15 quiet_frame))) \<noteq> []"
  proof -
    have "\<exists>k<length (replicate 15 quiet_frame). \<exists>v.
            frame_volume (replicate 15 quiet_frame ! k) = Some v \<and>
            v < silence_threshold * (7 / 10) \<and> duration_of (k + 1) \<ge> 8 / 10 \<and>
            duration_of (length [loud_frame] + k + 1) \<ge> 1"
      by (intro exI [of _ 14])
        (simp add: frame_volume_samples silence_threshold_def duration_of_def chunk_size_def
          sample_rate_def)
    with loud_then_quiet_emits_iff [OF l1 q [of 15]] show ?thesis by simp
  qed
  have b: "snd (process_audio_stream initial_recognizer
     (map Frame ([loud_frame] @ replicate 12 quiet_frame))) = []"
  proof -
    have "\<not> (\<exists>k<length (replicate 12 quiet_frame). \<exists>v.
            frame_volume (replicate 12 quiet_frame ! k) = Some v \<and>
            v < silence_threshold * (7 / 10) \<and> duration_of (k + 1) \<ge> 8 / 10 \<and>
            duration_of (length [loud_frame] + k + 1) \<ge> 1)"
      by (auto simp: duration_of_def chunk_size_def sample_rate_def field_simps)
    moreover have "\<not> duration_of (length (replicate 12 quiet_frame)) \<ge> silence_duration_threshold"
      "\<not> duration_of (length [loud_frame] + length (replicate 12 quiet_frame)) \<ge>
         max_speech_duration"
      by (simp_all add: duration_of_def chunk_size_def sample_rate_def
          silence_duration_threshold_def max_speech_duration_def)
    ultimately show ?thesis
      using loud_then_quiet_emits_iff [OF l1 q [of 12]] by blast
  qed
  have c: "snd (process_audio_stream initial_recognizer
     (map Frame (replicate 8 loud_frame @ replicate 19 murmur_frame))) \<noteq> []"
  proof -
    have "duration_of (length (replicate 8 loud_frame)) \<ge> min_speech_duration \<and>
          duration_of (length (replicate 19 murmur_frame)) \<ge> silence_duration_threshold"
      by (simp add: duration_of_def chunk_size_def sample_rate_def min_speech_duration_def
          silence_duration_threshold_def)
    with loud_then_quiet_emits_iff [OF l8 m [of 19]] show ?thesis by blast
  qed
  have d: "snd (process_audio_stream initial_recognizer
     (map Frame ([loud_frame] @ replicate 12 quiet_frame) @ [QueueEmpty])) \<noteq> []"
  proof -
    have "duration_of (length [loud_frame] + length (replicate 12 quiet_frame)) \<ge>
          min_speech_duration"
      by (simp add: duration_of_def chunk_size_def sample_rate_def min_speech_duration_def)
    with loud_then_quiet_emits_iff [OF l1 q [of 12]] show ?thesis by blast
  qed
  from a b c d show ?thesis by blast
qed

subsection \<open>What a closure leaves behind\<close>

lemma frame_closure_resets:
  assumes "process_frame r d = (r', u # us)"
  shows "silence_frames r' = 0 \<and> \<not> is_speaking r' \<and> length (audio_buffer r') \<le> keep_frames \<and>
         duration_of (length (audio_buffer r')) \<le> 3 / 10"
proof -
  from assms obtain r2 where r': "r' = reset_state r2"
    by (auto simp: process_frame_def Let_def split: option.splits if_splits)
  have len: "length (audio_buffer (reset_state r2)) \<le> keep_frames"
    by (simp add: reset_state_def last_frames_def keep_frames_eq)
  then have "duration_of (length (audio_buffer (reset_state r2))) \<le> duration_of keep_frames"
    by (rule duration_of_mono)
  also have "\<dots> \<le> 3 / 10"
    by (simp add: keep_frames_eq duration_of_def chunk_size_def sample_rate_def)
  finally show ?thesis
    using len by (simp add: r' reset_state_def)
qed

lemma queue_closure_keeps_counter:
  assumes "queue_empty r = (r', u # us)"
  shows "audio_buffer r' = [] \<and> \<not> is_speaking r' \<and> silence_frames r' = silence_frames r"
  using assms by (auto simp: queue_empty_def split: if_splits)

text \<open>
  Claim C6 fails on the code for the queue-idle closure: the handler of \<open>queue.Empty\<close>
  empties the buffer and clears \<open>is_speaking\<close> but does not assign \<open>silence_frames\<close>,
  as the closure on the frame path does. Seven loud frames and one silent frame
  (0.512 s buffered) followed by a timeout: the utterance is emitted and
  \<open>silence_frames\<close> is still 1.
\<close>

theorem queue_idle_closure_keeps_silence_frames:
  "process_audio_stream initial_recognizer
     [Frame loud_frame, Frame loud_frame, Frame loud_frame, Frame loud_frame,
      Frame loud_frame, Frame loud_frame, Frame loud_frame, Frame quiet_frame, QueueEmpty] =
   (\<lparr>audio_buffer = [], silence_frames = 1, is_speaking = False, debug_counter = 8\<rparr>,
    [(QueueIdleClosure,
      concat [loud_frame, loud_frame, loud_frame, loud_frame, loud_frame, loud_frame,
              loud_frame, quiet_frame])])"
  by (simp add: segmenter_defs frame_volume_samples)

text \<open>
  Claim C7 fails on the code: the four frames kept after a closure are overwritten by
  \<open>self.audio_buffer = [data]\<close> when the next utterance starts. After one loud frame
  and fifteen silent ones the short utterance rule closes the utterance and the last
  four silent frames are kept; the next loud frame starts a buffer that holds that
  frame alone.
\<close>

theorem carryover_dropped_at_next_start:
  "audio_buffer (fst (process_audio_stream initial_recognizer
     [Frame loud_frame, Frame quiet_frame, Frame quiet_frame, Frame quiet_frame,
      Frame quiet_frame, Frame quiet_frame, Frame quiet_frame, Frame quiet_frame,
      Frame quiet_frame, Frame quiet_frame, Frame quiet_frame, Frame quiet_frame,
      Frame quiet_frame, Frame quiet_frame, Frame quiet_frame, Frame quiet_frame])) =
     [quiet_frame, quiet_frame, quiet_frame, quiet_frame] \<and>
   audio_buffer (fst (process_audio_stream initial_recognizer
     ([Frame loud_frame, Frame quiet_frame, Frame quiet_frame, Frame quiet_frame,
      Frame quiet_frame, Frame quiet_frame, Frame quiet_frame, Frame quiet_frame,
      Frame quiet_frame, Frame quiet_frame, Frame quiet_frame, Frame quiet_frame,
      Frame quiet_frame, Frame quiet_frame, Frame quiet_frame, Frame quiet_frame] @
      [Frame second_loud_frame]))) = [second_loud_frame]"
  by (simp add: segmenter_defs frame_volume_samples keep_frames_eq)

end
